theory Spec2Isabelle
  imports Main
begin

section \<open>Python strings\<close>

text \<open>
  A Python \<open>str\<close> is a sequence of code points. It is modelled as \<^typ>\<open>string\<close>, each
  \<^typ>\<open>char\<close> standing for the code point of the same number, so the model covers the
  texts whose code points lie below 256 (ASCII and Latin-1), and \<open>len\<close> is
  \<^const>\<open>length\<close>. The character predicates below are Python's, restricted to that range.
\<close>

definition cp :: "char \<Rightarrow> nat" where
  "cp c = of_char c"

definition nl :: char where
  "nl = CHR 0x0A"

definition isspace :: "char \<Rightarrow> bool" where
  \<comment> \<open>\<open>str.isspace\<close>, which is also what \<open>str.strip()\<close> removes and what \<open>\s\<close> matches\<close>
  "isspace c = (let n = cp c in
     (9 \<le> n \<and> n \<le> 13) \<or> (28 \<le> n \<and> n \<le> 32) \<or> n = 133 \<or> n = 160)"

definition isdecimal :: "char \<Rightarrow> bool" where
  \<comment> \<open>\<open>\d\<close>: the decimal digits; below 256 these are \<open>0\<close> to \<open>9\<close>\<close>
  "isdecimal c = (let n = cp c in 48 \<le> n \<and> n \<le> 57)"

definition isupper_char :: "char \<Rightarrow> bool" where
  "isupper_char c = (let n = cp c in
     (65 \<le> n \<and> n \<le> 90) \<or> (192 \<le> n \<and> n \<le> 222 \<and> n \<noteq> 215))"

definition islower_char :: "char \<Rightarrow> bool" where
  "islower_char c = (let n = cp c in
     (97 \<le> n \<and> n \<le> 122) \<or> n = 170 \<or> n = 181 \<or> n = 186 \<or> (223 \<le> n \<and> n \<noteq> 247))"

definition iscased :: "char \<Rightarrow> bool" where
  "iscased c = (isupper_char c \<or> islower_char c)"

definition isword :: "char \<Rightarrow> bool" where
  \<comment> \<open>\<open>\w\<close>: \<open>str.isalnum\<close> or the underscore\<close>
  "isword c = (let n = cp c in
     isdecimal c \<or> iscased c \<or> n = 95 \<or> n = 178 \<or> n = 179 \<or> n = 185 \<or> (188 \<le> n \<and> n \<le> 190))"

definition lower_char :: "char \<Rightarrow> char" where
  "lower_char c = (if isupper_char c then char_of (cp c + 32) else c)"

definition lower :: "string \<Rightarrow> string" where
  \<comment> \<open>\<open>str.lower()\<close>\<close>
  "lower s = map lower_char s"

definition title_char :: "char \<Rightarrow> string" where
  \<comment> \<open>the title-case mapping of one character: \<open>U+00DF\<close> becomes \<open>Ss\<close>; the two
      characters whose title case lies above 255 (\<open>U+00B5\<close>, \<open>U+00FF\<close>) are left as they are\<close>
  "title_char c = (let n = cp c in
     if n = 223 then ''Ss''
     else if (97 \<le> n \<and> n \<le> 122) \<or> (224 \<le> n \<and> n \<le> 254 \<and> n \<noteq> 247) then [char_of (n - 32)]
     else [c])"

fun title_from :: "bool \<Rightarrow> string \<Rightarrow> string" where
  "title_from prev_cased [] = []"
| "title_from prev_cased (c # cs) =
     (if prev_cased then [lower_char c] else title_char c) @ title_from (iscased c) cs"

definition title :: "string \<Rightarrow> string" where
  \<comment> \<open>\<open>str.title()\<close>\<close>
  "title s = title_from False s"

definition strip :: "string \<Rightarrow> string" where
  \<comment> \<open>\<open>str.strip()\<close>\<close>
  "strip s = rev (dropWhile isspace (rev (dropWhile isspace s)))"

definition startswith :: "string \<Rightarrow> string \<Rightarrow> bool" where
  \<comment> \<open>\<open>s.startswith(w)\<close>\<close>
  "startswith s w = (take (length w) s = w)"

definition endswith :: "string \<Rightarrow> string \<Rightarrow> bool" where
  "endswith s w = (startswith (rev s) (rev w))"

fun contains :: "string \<Rightarrow> string \<Rightarrow> bool" where
  \<comment> \<open>\<open>w in s\<close>\<close>
  "contains [] w = (w = [])"
| "contains (c # cs) w = (startswith (c # cs) w \<or> contains cs w)"

fun split_nl :: "string \<Rightarrow> string list" where
  \<comment> \<open>\<open>s.split('\n')\<close>: never empty, one more piece than there are newlines\<close>
  "split_nl [] = [[]]"
| "split_nl (c # cs) =
     (if c = nl then [] # split_nl cs
      else (case split_nl cs of [] \<Rightarrow> [[c]] | l # ls \<Rightarrow> (c # l) # ls))"

fun words_from :: "string \<Rightarrow> string \<Rightarrow> string list" where
  "words_from cur [] = (if cur = [] then [] else [rev cur])"
| "words_from cur (c # cs) =
     (if isspace c then (if cur = [] then [] else [rev cur]) @ words_from [] cs
      else words_from (c # cur) cs)"

definition split_ws :: "string \<Rightarrow> string list" where
  \<comment> \<open>\<open>s.split()\<close>: the maximal runs of non-whitespace\<close>
  "split_ws s = words_from [] s"

definition digit_char :: "nat \<Rightarrow> char" where
  "digit_char d = char_of (48 + d)"

fun str_nat :: "nat \<Rightarrow> string" where
  \<comment> \<open>\<open>str(n)\<close> for a non-negative integer\<close>
  "str_nat n = (if n < 10 then [digit_char n] else str_nat (n div 10) @ [digit_char (n mod 10)])"

declare str_nat.simps [simp del]

section \<open>The regular expressions of module \<open>re\<close>\<close>

text \<open>
  The patterns of the program use literals, character classes, repetition of a single
  character class (greedy or lazy), sequence, alternation, one capturing group and the
  anchors \<open>^\<close> and \<open>$\<close>. The matcher lists every way a pattern can match at the start of
  its input, in the order in which the backtracking matcher of \<open>re\<close> tries them; each
  result is the rest of the input with the text of group 1, if the group took part.
  The flag says whether the position is the start of the whole string.
\<close>

datatype cclass =
    Cspace
  | Cdigit
  | Cword
  | Cany
  | Crange char char
  | Cset string
  | Cunion cclass cclass

fun in_class :: "cclass \<Rightarrow> char \<Rightarrow> bool" where
  "in_class Cspace c = isspace c"
| "in_class Cdigit c = isdecimal c"
| "in_class Cword c = isword c"
| "in_class Cany c = (c \<noteq> nl)"
| "in_class (Crange a b) c = (cp a \<le> cp c \<and> cp c \<le> cp b)"
| "in_class (Cset cs) c = (c \<in> set cs)"
| "in_class (Cunion x y) c = (in_class x c \<or> in_class y c)"

datatype regex =
    Eps
  | Lit string
  | Cls cclass
  | Rep cclass nat "nat option"
  | LazyRep cclass nat "nat option"
  | Seq regex regex
  | Alt regex regex
  | Grp regex
  | Bol
  | Eol

type_synonym mresult = "string \<times> string option"

definition rep_counts :: "cclass \<Rightarrow> nat \<Rightarrow> nat option \<Rightarrow> string \<Rightarrow> nat list" where
  \<comment> \<open>how many characters a repetition may take, in increasing order\<close>
  "rep_counts c lo hi s =
     (let k = length (takeWhile (in_class c) s);
          m = (case hi of None \<Rightarrow> k | Some h \<Rightarrow> min k h)
      in [lo ..< Suc m])"

fun rmatch :: "regex \<Rightarrow> bool \<Rightarrow> string \<Rightarrow> mresult list" where
  "rmatch Eps bos s = [(s, None)]"
| "rmatch (Lit w) bos s = (if startswith s w then [(drop (length w) s, None)] else [])"
| "rmatch (Cls c) bos s =
     (case s of [] \<Rightarrow> [] | x # xs \<Rightarrow> if in_class c x then [(xs, None)] else [])"
| "rmatch (Rep c lo hi) bos s = map (\<lambda>j. (drop j s, None)) (rev (rep_counts c lo hi s))"
| "rmatch (LazyRep c lo hi) bos s = map (\<lambda>j. (drop j s, None)) (rep_counts c lo hi s)"
| "rmatch (Seq a b) bos s =
     concat (map (\<lambda>(t, g).
        map (\<lambda>(u, h). (u, case h of None \<Rightarrow> g | Some x \<Rightarrow> Some x))
            (rmatch b (bos \<and> length t = length s) t))
       (rmatch a bos s))"
| "rmatch (Alt a b) bos s = rmatch a bos s @ rmatch b bos s"
| "rmatch (Grp a) bos s =
     map (\<lambda>(t, g). (t, Some (take (length s - length t) s))) (rmatch a bos s)"
| "rmatch Bol bos s = (if bos then [(s, None)] else [])"
| "rmatch Eol bos s = (if s = [] \<or> s = [nl] then [(s, None)] else [])"

fun ngroups :: "regex \<Rightarrow> nat" where
  "ngroups (Seq a b) = ngroups a + ngroups b"
| "ngroups (Alt a b) = ngroups a + ngroups b"
| "ngroups (Grp a) = Suc (ngroups a)"
| "ngroups r = 0"

fun captures :: "regex \<Rightarrow> bool" where
  \<comment> \<open>group 1 takes part in every match of the pattern\<close>
  "captures (Grp a) = True"
| "captures (Seq a b) = (captures a \<or> captures b)"
| "captures (Alt a b) = (captures a \<and> captures b)"
| "captures r = False"

fun seqs :: "regex list \<Rightarrow> regex" where
  "seqs [] = Eps"
| "seqs [r] = r"
| "seqs (r # rs) = Seq r (seqs rs)"

fun alts :: "regex \<Rightarrow> regex list \<Rightarrow> regex" where
  "alts r [] = r"
| "alts r (x # xs) = Alt r (alts x xs)"

definition opt :: "regex \<Rightarrow> regex" where
  \<comment> \<open>\<open>r?\<close> prefers to match\<close>
  "opt r = Alt r Eps"

definition plus :: "cclass \<Rightarrow> regex" where
  "plus c = Rep c 1 None"

definition star :: "cclass \<Rightarrow> regex" where
  "star c = Rep c 0 None"

definition re_match :: "regex \<Rightarrow> string \<Rightarrow> mresult option" where
  \<comment> \<open>\<open>re.match(p, s)\<close>: the first way to match at the start of the string\<close>
  "re_match p s = (case rmatch p True s of [] \<Rightarrow> None | m # ms \<Rightarrow> Some m)"

fun search_from :: "regex \<Rightarrow> bool \<Rightarrow> string \<Rightarrow> mresult option" where
  "search_from p bos [] = (case rmatch p bos [] of [] \<Rightarrow> None | m # ms \<Rightarrow> Some m)"
| "search_from p bos (c # cs) =
     (case rmatch p bos (c # cs) of [] \<Rightarrow> search_from p False cs | m # ms \<Rightarrow> Some m)"

definition re_search :: "regex \<Rightarrow> string \<Rightarrow> mresult option" where
  \<comment> \<open>\<open>re.search(p, s)\<close>: the first match at the leftmost position that has one\<close>
  "re_search p s = search_from p True s"

datatype py_error = ZeroDivisionError | IndexError | AttributeError

definition group1 :: "regex \<Rightarrow> mresult \<Rightarrow> py_error + string option" where
  \<comment> \<open>\<open>match.group(1)\<close>: IndexError when the pattern has no group, \<open>None\<close> when the group
      took no part in the match\<close>
  "group1 p m = (if ngroups p < 1 then Inl IndexError else Inr (snd m))"

definition first_usable :: "bool \<Rightarrow> string \<Rightarrow> mresult list \<Rightarrow> mresult option" where
  \<comment> \<open>after an empty match, the next match at the same position must not be empty\<close>
  "first_usable must_advance s ms =
     find (\<lambda>(t, g). \<not> must_advance \<or> length t < length s) ms"

function sub_from :: "regex \<Rightarrow> string \<Rightarrow> bool \<Rightarrow> bool \<Rightarrow> string \<Rightarrow> string" where
  "sub_from p repl bos must_advance s =
     (case first_usable must_advance s (rmatch p bos s) of
        Some (t, g) \<Rightarrow>
          if length t < length s then repl @ sub_from p repl False False t
          else if must_advance then repl
          else repl @ sub_from p repl bos True s
      | None \<Rightarrow> (case s of [] \<Rightarrow> [] | c # cs \<Rightarrow> c # sub_from p repl False False cs))"
  by pat_completeness auto
termination
  by (relation "measure (\<lambda>(p, repl, bos, adv, s). 2 * length s + (if adv then 0 else 1))") auto

definition re_sub :: "regex \<Rightarrow> string \<Rightarrow> string \<Rightarrow> string" where
  \<comment> \<open>\<open>re.sub(p, repl, s)\<close> for a replacement text without group references\<close>
  "re_sub p repl s = sub_from p repl True False s"

declare sub_from.simps [simp del]


definition lits :: "string \<Rightarrow> string list \<Rightarrow> regex" where
  \<comment> \<open>an alternation of literal words, \<open>(?:w|w1|w2|...)\<close>\<close>
  "lits w ws = alts (Lit w) (map Lit ws)"

definition word_s :: "string \<Rightarrow> regex" where
  \<comment> \<open>a word with an optional final s, as in \<open>provides?\<close>\<close>
  "word_s w = Seq (Lit w) (opt (Lit ''s''))"

definition ws1 :: regex where
  \<comment> \<open>\<open>\s+\<close>\<close>
  "ws1 = plus Cspace"

definition ws0 :: regex where
  \<comment> \<open>\<open>\s*\<close>\<close>
  "ws0 = star Cspace"

definition rest_group :: regex where
  \<comment> \<open>\<open>(.+)\<close>\<close>
  "rest_group = Grp (plus Cany)"

section \<open>business\_requirements\_server.py: structural analysis\<close>

text \<open>
  The dictionary built by \<open>analyze_document_structure\<close>. The entry \<open>user_roles\<close> is left
  out: the code that fills it reads only the lowercased content, writes no other entry
  and cannot raise.
\<close>

record analysis =
  total_lines :: nat
  total_words :: nat
  total_chars :: nat
  headers :: "string list"
  requirements :: "string list"
  estimated_stories :: nat
  complexity_level :: string

definition header_patterns :: "regex list" where
  "header_patterns =
    [ seqs [Bol, Rep (Cset ''#'') 1 (Some 6), ws1, rest_group, Eol],
      seqs [Bol, plus Cdigit, Lit ''.'', ws1, rest_group, Eol],
      seqs [Bol, Cls (Crange CHR ''A'' CHR ''Z''),
            plus (Cunion (Crange CHR ''A'' CHR ''Z'') Cspace), opt (Lit '':''), ws0, Eol],
      seqs [Bol, rest_group, Lit [nl], plus (Cset ''=''), Eol],
      seqs [Bol, rest_group, Lit [nl], plus (Cset ''-''), Eol] ]"

fun header_of_line :: "regex list \<Rightarrow> string \<Rightarrow> py_error + string option" where
  \<comment> \<open>the inner loop over the patterns: the first pattern that matches decides, and the
      header text is kept only if its length is strictly between 3 and 100\<close>
  "header_of_line [] line = Inr None"
| "header_of_line (p # ps) line =
     (case re_match p line of
        None \<Rightarrow> header_of_line ps line
      | Some m \<Rightarrow>
          (case group1 p m of
             Inl e \<Rightarrow> Inl e
           | Inr None \<Rightarrow> Inl AttributeError
           | Inr (Some g) \<Rightarrow>
               (let header_text = strip g
                in if length header_text > 3 \<and> length header_text < 100
                   then Inr (Some header_text) else Inr None)))"

fun find_headers :: "string list \<Rightarrow> string list \<Rightarrow> py_error + string list" where
  "find_headers [] acc = Inr acc"
| "find_headers (l # ls) acc =
     (let line = strip l
      in if line = [] then find_headers ls acc
         else (case header_of_line header_patterns line of
                 Inl e \<Rightarrow> Inl e
               | Inr None \<Rightarrow> find_headers ls acc
               | Inr (Some h) \<Rightarrow> find_headers ls (acc @ [h])))"

definition requirement_keywords :: "string list" where
  "requirement_keywords =
    [''shall'', ''should'', ''must'', ''will'', ''needs to'', ''required to'',
     ''user can'', ''system shall'', ''application must'', ''feature should'',
     ''requirement:'', ''req:'', ''user story:'', ''as a'', ''i want'', ''so that'']"

fun find_requirements :: "string list \<Rightarrow> string list \<Rightarrow> string list" where
  "find_requirements [] acc = acc"
| "find_requirements (l # ls) acc =
     (let line = strip l
      in if length line > 20
         then (let line_lower = lower line
               in if list_ex (\<lambda>keyword. contains line_lower keyword) requirement_keywords
                  then find_requirements ls (acc @ [line])
                  else find_requirements ls acc)
         else find_requirements ls acc)"

definition analyze_document_structure :: "string \<Rightarrow> py_error + analysis" where
  "analyze_document_structure content =
     (let lines = split_nl content
      in case find_headers lines [] of
           Inl e \<Rightarrow> Inl e
         | Inr hs \<Rightarrow>
             (let reqs = find_requirements lines []
              in Inr \<lparr> total_lines = length lines,
                       total_words = length (split_ws content),
                       total_chars = length content,
                       headers = hs,
                       requirements = reqs,
                       estimated_stories = min (max (length reqs) 3) 15,
                       complexity_level =
                         (if length reqs > 20 then ''High''
                          else if length reqs < 5 then ''Low'' else ''Medium'') \<rparr>))"

section \<open>business\_requirements\_server.py: requirement extraction\<close>

definition requirement_patterns :: "regex list" where
  "requirement_patterns =
    [ seqs [alts (Lit ''shall'')
              [Lit ''should'', Lit ''must'', Lit ''will'',
               seqs [word_s ''need'', ws1, Lit ''to''],
               seqs [Lit ''required'', ws1, Lit ''to'']],
            ws1, rest_group],
      seqs [lits ''user'' [''system'', ''application''], ws1,
            lits ''can'' [''shall'', ''should'', ''must'', ''will''], ws1, rest_group],
      seqs [opt (Seq (Lit ''the'') ws1),
            lits ''system'' [''application'', ''software''], ws1,
            alts (word_s ''provide'') [word_s ''enable'', word_s ''allow'', word_s ''support''],
            ws1, rest_group],
      seqs [opt (Seq (word_s ''user'') ws1),
            alts (Lit ''can'')
              [Lit ''should'', Lit ''must'', Lit ''will'', seqs [Lit ''able'', ws1, Lit ''to'']],
            ws1, rest_group],
      seqs [lits ''feature'' [''functionality'', ''capability''], Lit '':'', ws0, rest_group],
      seqs [lits ''requirement'' [''req''], Lit '':'', ws0, rest_group],
      seqs [Lit ''as'', ws1, Lit ''a'', opt (Lit ''n''), ws1, plus Cword, opt (Lit '',''), ws1,
            Lit ''i'', ws1, Lit ''want'', ws1, opt (Seq (Lit ''to'') ws1),
            Grp (LazyRep Cany 1 None),
            Alt (seqs [ws1, Lit ''so'', ws1, Lit ''that'']) Eol] ]"

text \<open>
  The bullet \<open>U+2022\<close> of the two list-marker classes lies outside the characters of the
  model, so it cannot occur in an input line and is absent from the classes below.
\<close>

definition bullet_marker :: regex where
  "bullet_marker = seqs [Bol, Cls (Cset ''*-+''), ws1]"

definition number_marker :: regex where
  "number_marker = seqs [Bol, plus Cdigit, opt (Lit ''.''), ws1]"

definition marker_prefix :: regex where
  "marker_prefix = seqs [Bol, Cls (Cunion (Cset ''*-+'') (Cunion Cdigit (Cset ''.''))), ws0]"

definition subject_words :: "string list" where
  "subject_words = [''user'', ''system'', ''shall'', ''should'', ''must'', ''can'', ''will'']"

fun phrase_of_line :: "regex list \<Rightarrow> string \<Rightarrow> py_error + string list" where
  \<comment> \<open>the inner loop over the requirement patterns: what the first pattern found by
      \<open>re.search\<close> adds to the list (nothing, or one phrase)\<close>
  "phrase_of_line [] line_lower = Inr []"
| "phrase_of_line (p # ps) line_lower =
     (case re_search p line_lower of
        None \<Rightarrow> phrase_of_line ps line_lower
      | Some m \<Rightarrow>
          (case group1 p m of
             Inl e \<Rightarrow> Inl e
           | Inr None \<Rightarrow> Inl AttributeError
           | Inr (Some g) \<Rightarrow>
               (let requirement = strip g
                in if length requirement > 10
                   then Inr [re_sub ws1 '' '' requirement] else Inr [])))"

definition item_of_line :: "string \<Rightarrow> string list" where
  \<comment> \<open>the bullet or numbered item check on the original (not lowercased) line\<close>
  "item_of_line line =
     (if re_match bullet_marker line \<noteq> None \<or> re_match number_marker line \<noteq> None
      then (let cleaned_line = re_sub marker_prefix [] line
            in if length cleaned_line > 15
                  \<and> list_ex (\<lambda>word. contains (lower cleaned_line) word) subject_words
               then [cleaned_line] else [])
      else [])"

fun collect_requirements :: "string \<Rightarrow> string list \<Rightarrow> string list \<Rightarrow> py_error + string list" where
  "collect_requirements feature_focus [] acc = Inr acc"
| "collect_requirements feature_focus (l # ls) acc =
     (let line = strip l
      in if length line < 10 \<or> startswith line ''#'' then collect_requirements feature_focus ls acc
         else (let line_lower = lower line
               in if feature_focus \<noteq> [] \<and> \<not> contains line_lower (lower feature_focus)
                  then collect_requirements feature_focus ls acc
                  else (case phrase_of_line requirement_patterns line_lower of
                          Inl e \<Rightarrow> Inl e
                        | Inr found \<Rightarrow>
                            collect_requirements feature_focus ls (acc @ found @ item_of_line line))))"

definition extract_requirements_from_document :: "string \<Rightarrow> string \<Rightarrow> py_error + string list" where
  "extract_requirements_from_document content feature_focus =
     (case collect_requirements feature_focus (split_nl content) [] of
        Inl e \<Rightarrow> Inl e
      | Inr reqs \<Rightarrow> Inr (take 20 reqs))"

section \<open>business\_requirements\_server.py: action and benefit of a requirement\<close>

definition subject_modal_prefix :: regex where
  \<comment> \<open>\<open>^(?:the\s+)?(?:system|application|user|users?)\s+(?:can|should|must|will|shall)\s+\<close>\<close>
  "subject_modal_prefix =
     seqs [Bol, opt (Seq (Lit ''the'') ws1),
           alts (Lit ''system'') [Lit ''application'', Lit ''user'', word_s ''user''], ws1,
           lits ''can'' [''should'', ''must'', ''will'', ''shall''], ws1]"

definition verb_prefix :: regex where
  \<comment> \<open>\<open>^(?:provides?|enables?|allows?|supports?|implements?)\s+\<close>\<close>
  "verb_prefix =
     seqs [Bol,
           alts (word_s ''provide'')
             [word_s ''enable'', word_s ''allow'', word_s ''support'', word_s ''implement''],
           ws1]"

definition to_prefix :: regex where
  \<comment> \<open>\<open>^(?:to\s+)?\<close>\<close>
  "to_prefix = seqs [Bol, opt (Seq (Lit ''to'') ws1)]"

definition extract_action_from_requirement :: "string \<Rightarrow> string" where
  "extract_action_from_requirement requirement =
     (let req_lower = lower requirement;
          r1 = re_sub subject_modal_prefix [] req_lower;
          r2 = re_sub verb_prefix [] r1;
          r3 = re_sub to_prefix [] r2;
          r4 = strip r3;
          r5 = (if endswith r4 ''.'' then butlast r4 else r4)
      in if r5 \<noteq> [] then r5 else lower requirement)"

definition benefit_patterns :: "regex list" where
  "benefit_patterns =
    [ seqs [Lit ''so'', ws1, Lit ''that'', ws1, rest_group],
      seqs [Lit ''in'', ws1, Lit ''order'', ws1, Lit ''to'', ws1, rest_group],
      seqs [Lit ''to'', ws1, Lit ''ensure'', ws1, rest_group],
      seqs [Lit ''enabling'', ws1, rest_group],
      seqs [Lit ''resulting'', ws1, Lit ''in'', ws1, rest_group] ]"

definition benefit_mapping :: "(string \<times> string) list" where
  \<comment> \<open>the dictionary, in the order in which it is written and iterated\<close>
  "benefit_mapping =
    [ (''login'', ''I can securely access my account and data''),
      (''register'', ''I can create an account and use the system''),
      (''search'', ''I can quickly find the information I need''),
      (''view'', ''I can see relevant information''),
      (''edit'', ''I can keep information current and accurate''),
      (''delete'', ''I can remove unwanted or obsolete data''),
      (''create'', ''I can add new content to the system''),
      (''save'', ''my work is preserved and secure''),
      (''upload'', ''I can share files with the system''),
      (''download'', ''I can access files when needed''),
      (''manage'', ''I can control and organize my data''),
      (''configure'', ''I can customize the system to my needs''),
      (''monitor'', ''I can track important metrics and status''),
      (''approve'', ''I can control workflow and quality''),
      (''report'', ''I can generate insights and documentation'') ]"

fun explicit_benefit :: "regex list \<Rightarrow> string \<Rightarrow> py_error + string option" where
  "explicit_benefit [] req_lower = Inr None"
| "explicit_benefit (p # ps) req_lower =
     (case re_search p req_lower of
        None \<Rightarrow> explicit_benefit ps req_lower
      | Some m \<Rightarrow>
          (case group1 p m of
             Inl e \<Rightarrow> Inl e
           | Inr None \<Rightarrow> Inl AttributeError
           | Inr (Some g) \<Rightarrow> Inr (Some (strip g))))"

fun inferred_benefit :: "(string \<times> string) list \<Rightarrow> string \<Rightarrow> string" where
  "inferred_benefit [] req_lower = ''I can accomplish my business objectives efficiently''"
| "inferred_benefit ((keyword, benefit) # kvs) req_lower =
     (if contains req_lower keyword then benefit else inferred_benefit kvs req_lower)"

definition extract_benefit_from_requirement :: "string \<Rightarrow> py_error + string" where
  "extract_benefit_from_requirement requirement =
     (let req_lower = lower requirement
      in case explicit_benefit benefit_patterns req_lower of
           Inl e \<Rightarrow> Inl e
         | Inr (Some b) \<Rightarrow> Inr b
         | Inr None \<Rightarrow> Inr (inferred_benefit benefit_mapping req_lower))"

section \<open>business\_requirements\_server.py: the story templates\<close>

definition bullet :: string where
  \<comment> \<open>the bullet \<open>U+2022\<close> of the templates, which lies outside the characters of the model,
      is written as its three UTF-8 bytes\<close>
  "bullet = [CHR 0xE2, CHR 0x80, CHR 0xA2]"

definition generate_standard_story :: "nat \<Rightarrow> string \<Rightarrow> string \<Rightarrow> string \<Rightarrow> string" where
  "generate_standard_story story_num user_persona action benefit =
     ''**User Story '' @ str_nat story_num @ '':**'' @ [nl] @ ''As a '' @ user_persona @
     '', I want to '' @ action @ '', so that '' @ benefit @ ''.'' @ [nl] @ [nl] @
     ''**Acceptance Criteria:**'' @ [nl] @ bullet @ '' Given that I am a '' @
     user_persona @ [nl] @ bullet @ '' When I '' @ action @ [nl] @ bullet @ '' Then '' @
     benefit @ [nl] @ bullet @ '' And the system provides appropriate feedback''"

definition generate_detailed_story ::
  "nat \<Rightarrow> string \<Rightarrow> string \<Rightarrow> string \<Rightarrow> string \<Rightarrow> string" where
  "generate_detailed_story story_num user_persona action benefit original_requirement =
     ''**User Story '' @ str_nat story_num @ '':**'' @ [nl] @ ''As a '' @ user_persona @
     '', I want to '' @ action @ '', so that '' @ benefit @ ''.'' @ [nl] @ [nl] @
     ''**Original Requirement:**'' @ [nl] @ original_requirement @ [nl] @ [nl] @
     ''**Acceptance Criteria:**'' @ [nl] @ bullet @ '' Given that I am a '' @
     user_persona @ '' with appropriate permissions'' @ [nl] @ bullet @ '' When I '' @
     action @ [nl] @ bullet @ '' Then '' @ benefit @ [nl] @ bullet @
     '' And the system responds within acceptable time limits'' @ [nl] @ bullet @
     '' And appropriate logging and audit trails are maintained'' @ [nl] @ bullet @
     '' And error handling is graceful and informative'' @ [nl] @ [nl] @
     ''**Definition of Done:**'' @ [nl] @ bullet @ '' Feature is implemented and tested'' @
     [nl] @ bullet @ '' User acceptance testing is completed'' @ [nl] @ bullet @
     '' Documentation is updated''"

definition generate_agile_story :: "nat \<Rightarrow> string \<Rightarrow> string \<Rightarrow> string \<Rightarrow> string" where
  "generate_agile_story story_num user_persona action benefit =
     ''**Story #'' @ str_nat story_num @ '':** '' @ title action @ [nl] @ [nl] @
     ''**User Story:**'' @ [nl] @ ''As a '' @ user_persona @ '', I want to '' @ action @
     '', so that '' @ benefit @ ''.'' @ [nl] @ [nl] @ ''**Acceptance Criteria:**'' @ [nl] @
     ''- [ ] Given a '' @ user_persona @ [nl] @ ''- [ ] When they '' @ action @ [nl] @
     ''- [ ] Then '' @ benefit @ [nl] @ ''- [ ] And system provides feedback'' @ [nl] @
     [nl] @ ''**Story Points:** TBD'' @ [nl] @ ''**Priority:** TBD''"

definition generate_default_story :: "string \<Rightarrow> string" where
  "generate_default_story user_persona =
     ''**User Story 1:**'' @ [nl] @ ''As a '' @ user_persona @
     '', I want to use the system features, so that I can accomplish my goals efficiently.'' @
     [nl] @ [nl] @ ''**Acceptance Criteria:**'' @ [nl] @ bullet @
     '' Given that I have access to the system'' @ [nl] @ bullet @
     '' When I use the available features'' @ [nl] @ bullet @
     '' Then I can complete my tasks'' @ [nl] @ bullet @
     '' And the system provides helpful feedback''"

section \<open>business\_requirements\_server.py: story synthesis\<close>

definition slice_to :: "'a list \<Rightarrow> int \<Rightarrow> 'a list" where
  \<comment> \<open>the slice \<open>xs[:m]\<close>; a negative \<open>m\<close> counts from the end\<close>
  "slice_to xs m = (if m < 0 then take (nat (int (length xs) + m)) xs else take (nat m) xs)"

definition story_for :: "string \<Rightarrow> nat \<Rightarrow> string \<Rightarrow> string \<Rightarrow> py_error + string" where
  \<comment> \<open>the part of the loop body after the persona is chosen: the story of requirement
      number \<open>i\<close> (counted from 0) for that persona\<close>
  "story_for story_format i user_persona requirement =
     (let action = extract_action_from_requirement requirement
      in case extract_benefit_from_requirement requirement of
           Inl e \<Rightarrow> Inl e
         | Inr benefit \<Rightarrow>
             Inr (if story_format = ''detailed''
                  then generate_detailed_story (i + 1) user_persona action benefit requirement
                  else if story_format = ''agile''
                  then generate_agile_story (i + 1) user_persona action benefit
                  else generate_standard_story (i + 1) user_persona action benefit))"

fun stories_loop ::
  "string list \<Rightarrow> string \<Rightarrow> int \<Rightarrow> nat \<Rightarrow> string list \<Rightarrow> string list \<Rightarrow> py_error + string list"
where
  "stories_loop user_personas story_format max_stories i [] stories = Inr stories"
| "stories_loop user_personas story_format max_stories i (requirement # rest) stories =
     (if int i \<ge> max_stories then Inr stories
      else if length user_personas = 0 then Inl ZeroDivisionError
      else (let user_persona = user_personas ! (i mod length user_personas)
            in case story_for story_format i user_persona requirement of
                 Inl e \<Rightarrow> Inl e
               | Inr story \<Rightarrow>
                   stories_loop user_personas story_format max_stories (Suc i) rest
                     (stories @ [story])))"

definition generate_user_stories ::
  "string list \<Rightarrow> string list \<Rightarrow> string \<Rightarrow> int \<Rightarrow> py_error + string list" where
  "generate_user_stories reqs user_personas story_format max_stories =
     (if reqs = []
      then Inr [generate_default_story
                  (if user_personas \<noteq> [] then user_personas ! 0 else ''user'')]
      else stories_loop user_personas story_format max_stories 0
             (slice_to reqs max_stories) [])"

section \<open>server.py: the stories of a document\<close>

fun split_acc :: "string \<Rightarrow> string \<Rightarrow> string \<Rightarrow> string list" where
  "split_acc sep cur [] = [rev cur]"
| "split_acc sep cur (c # cs) =
     (if sep \<noteq> [] \<and> startswith (c # cs) sep
      then rev cur # split_acc sep [] (drop (length sep - 1) cs)
      else split_acc sep (c # cur) cs)"

definition split_str :: "string \<Rightarrow> string \<Rightarrow> string list" where
  \<comment> \<open>\<open>s.split(sep)\<close> for a non-empty separator\<close>
  "split_str s sep = split_acc sep [] s"

fun replace_str :: "string \<Rightarrow> string \<Rightarrow> string \<Rightarrow> string" where
  \<comment> \<open>\<open>s.replace(old, new)\<close> for a non-empty \<open>old\<close>, with the string as last argument\<close>
  "replace_str old new [] = []"
| "replace_str old new (c # cs) =
     (if old \<noteq> [] \<and> startswith (c # cs) old
      then new @ replace_str old new (drop (length old - 1) cs)
      else c # replace_str old new cs)"

definition srv_requirement_keywords :: "string list" where
  "srv_requirement_keywords =
    [''user'', ''customer'', ''shall'', ''should'', ''must'', ''requirement'',
     ''need'', ''want'', ''allow'', ''enable'', ''provide'', ''feature'',
     ''functionality'', ''capability'', ''able to'', ''should be able'',
     ''system must'', ''application should'', ''interface will'']"

fun srv_find_requirements :: "string list \<Rightarrow> string list \<Rightarrow> string list" where
  "srv_find_requirements [] acc = acc"
| "srv_find_requirements (l # ls) acc =
     (let line = strip l
      in if length line > 20 \<and> \<not> startswith line ''#''
            \<and> list_ex (\<lambda>keyword. contains (lower line) keyword) srv_requirement_keywords
         then (let cleaned_req = replace_str ''The system'' ''the system'' line;
                   cleaned_req = replace_str ''User'' ''user'' cleaned_req
               in srv_find_requirements ls (acc @ [cleaned_req]))
         else srv_find_requirements ls acc)"

definition srv_requirements :: "string \<Rightarrow> string \<Rightarrow> string list" where
  \<comment> \<open>the list \<open>requirements\<close> just before the stories are written\<close>
  "srv_requirements content feature_focus =
     (let reqs = srv_find_requirements (split_nl content) []
      in if feature_focus \<noteq> []
         then filter (\<lambda>req. contains (lower req) (lower feature_focus)) reqs
         else reqs)"

definition after_word :: "string \<Rightarrow> string \<Rightarrow> string option" where
  \<comment> \<open>\<open>if w in s: parts = s.split(w); if len(parts) > 1: return parts[1].strip()\<close>\<close>
  "after_word w s =
     (if contains s w
      then (let parts = split_str s w
            in if length parts > 1 then Some (strip (parts ! 1)) else None)
      else None)"

definition srv_extract_action_from_requirement :: "string \<Rightarrow> string" where
  "srv_extract_action_from_requirement requirement =
     (let req_lower = lower requirement
      in case after_word ''able to'' req_lower of
           Some a \<Rightarrow> a
         | None \<Rightarrow>
             (case after_word ''shall'' req_lower of
                Some a \<Rightarrow> a
              | None \<Rightarrow>
                  (case after_word ''should'' req_lower of
                     Some a \<Rightarrow> a
                   | None \<Rightarrow> lower requirement)))"

definition srv_extract_benefit_from_requirement :: "string \<Rightarrow> string" where
  "srv_extract_benefit_from_requirement requirement =
     (let req_lower = lower requirement
      in case after_word ''so that'' req_lower of
           Some b \<Rightarrow> b
         | None \<Rightarrow>
             (case after_word ''in order to'' req_lower of
                Some b \<Rightarrow> b
              | None \<Rightarrow>
                  if list_ex (contains req_lower) [''login'', ''authenticate'', ''sign in'']
                  then ''I can securely access the system''
                  else if list_ex (contains req_lower) [''search'', ''find'', ''locate'']
                  then ''I can quickly find what I need''
                  else if list_ex (contains req_lower) [''save'', ''store'', ''persist'']
                  then ''my data is preserved for future use''
                  else if list_ex (contains req_lower) [''delete'', ''remove'']
                  then ''I can manage my data effectively''
                  else ''I can accomplish my goals efficiently''))"

definition srv_story :: "nat \<Rightarrow> string \<Rightarrow> string" where
  "srv_story i req =
     (let story_num = i + 1;
          action = srv_extract_action_from_requirement req;
          benefit = srv_extract_benefit_from_requirement req
      in ''**User Story '' @ str_nat story_num @ '':**'' @ [nl] @ ''As a user, I want to '' @
         action @ '', so that '' @ benefit @ ''.'' @ [nl] @ [nl] @
         ''**Acceptance Criteria:**'' @ [nl] @ bullet @
         '' Given that I am a user with appropriate access'' @ [nl] @ bullet @ '' When I '' @
         action @ [nl] @ bullet @ '' Then I should successfully complete the task'' @ [nl] @
         bullet @ '' And the system should provide appropriate feedback'' @ [nl] @ bullet @
         '' And the action should be logged/tracked as needed'')"

definition generate_default_stories :: "string list" where
  "generate_default_stories =
    [ ''**User Story 1:**'' @ [nl] @
      ''As a user, I want to access the system, so that I can use its features.'' @ [nl] @
      [nl] @ ''**Acceptance Criteria:**'' @ [nl] @ bullet @
      '' Given that I have valid credentials'' @ [nl] @ bullet @
      '' When I attempt to log in'' @ [nl] @ bullet @ '' Then I should be granted access'' @
      [nl] @ bullet @ '' And I should see the main interface'',
      ''**User Story 2:**'' @ [nl] @
      ''As a user, I want to navigate through the application, so that I can find the features I need.'' @
      [nl] @ [nl] @ ''**Acceptance Criteria:**'' @ [nl] @ bullet @
      '' Given that I am logged in'' @ [nl] @ bullet @ '' When I use the navigation menu'' @
      [nl] @ bullet @ '' Then I should be able to access different sections'' @ [nl] @
      bullet @ '' And the interface should be intuitive and responsive'' ]"

definition generate_stories_from_content :: "string \<Rightarrow> string \<Rightarrow> string list" where
  "generate_stories_from_content content feature_focus =
     (let reqs = srv_requirements content feature_focus;
          stories = map (\<lambda>(i, req). srv_story i req) (enumerate 0 (take 5 reqs))
      in if stories \<noteq> [] then stories else generate_default_stories)"

section \<open>The action of a requirement, rule by rule\<close>

text \<open>
  A second description of \<open>extract_action_from_requirement\<close>, written without regular
  expressions: each of the three stripping rules is a function on strings that removes
  one prefix, and the rules are applied once each, in their order.
\<close>

definition skip_spaces1 :: "string \<Rightarrow> string option" where
  \<comment> \<open>one or more leading whitespace characters, all removed\<close>
  "skip_spaces1 s = (if s \<noteq> [] \<and> isspace (hd s) then Some (dropWhile isspace s) else None)"

fun strip_word :: "string list \<Rightarrow> string \<Rightarrow> string option" where
  \<comment> \<open>removes the first word of the list that starts the string and is followed by
      whitespace, together with that whitespace\<close>
  "strip_word [] s = None"
| "strip_word (w # ws) s =
     (case (if startswith s w then skip_spaces1 (drop (length w) s) else None) of
        Some t \<Rightarrow> Some t
      | None \<Rightarrow> strip_word ws s)"

definition strip_subject_modal :: "string \<Rightarrow> string" where
  \<comment> \<open>rule 1: an optional \<open>the\<close>, a subject and a modal verb, each followed by whitespace\<close>
  "strip_subject_modal s =
     (let t = (case strip_word [''the''] s of Some t \<Rightarrow> t | None \<Rightarrow> s)
      in case strip_word [''system'', ''application'', ''user'', ''users''] t of
           None \<Rightarrow> s
         | Some u \<Rightarrow>
             (case strip_word [''can'', ''should'', ''must'', ''will'', ''shall''] u of
                None \<Rightarrow> s
              | Some v \<Rightarrow> v))"

definition strip_verb :: "string \<Rightarrow> string" where
  \<comment> \<open>rule 2: one of the five verbs, with or without its final s, followed by whitespace\<close>
  "strip_verb s =
     (case strip_word [''provide'', ''provides'', ''enable'', ''enables'', ''allow'', ''allows'',
                       ''support'', ''supports'', ''implement'', ''implements''] s of
        None \<Rightarrow> s
      | Some t \<Rightarrow> t)"

definition strip_to :: "string \<Rightarrow> string" where
  \<comment> \<open>rule 3: a leading \<open>to\<close> followed by whitespace\<close>
  "strip_to s = (case strip_word [''to''] s of None \<Rightarrow> s | Some t \<Rightarrow> t)"

definition action_by_rules :: "string \<Rightarrow> string" where
  "action_by_rules requirement =
     (let phrase = lower requirement;
          stripped = strip (strip_to (strip_verb (strip_subject_modal phrase)));
          action = (if stripped \<noteq> [] \<and> last stripped = CHR ''.'' then butlast stripped
                    else stripped)
      in if action = [] then phrase else action)"

section \<open>Auxiliary notions for reasoning about matches\<close>

fun bol_free :: "regex \<Rightarrow> bool" where
  "bol_free Bol = False"
| "bol_free (Seq a b) = (bol_free a \<and> bol_free b)"
| "bol_free (Alt a b) = (bol_free a \<and> bol_free b)"
| "bol_free (Grp a) = bol_free a"
| "bol_free r = True"

fun rests :: "regex \<Rightarrow> string \<Rightarrow> string list" where
  \<comment> \<open>the matcher without group and without position: for a pattern without \<open>^\<close> these
      are the first components of \<^const>\<open>rmatch\<close>\<close>
  "rests Eps s = [s]"
| "rests (Lit w) s = (if startswith s w then [drop (length w) s] else [])"
| "rests (Cls c) s = (case s of [] \<Rightarrow> [] | x # xs \<Rightarrow> if in_class c x then [xs] else [])"
| "rests (Rep c lo hi) s = map (\<lambda>j. drop j s) (rev (rep_counts c lo hi s))"
| "rests (LazyRep c lo hi) s = map (\<lambda>j. drop j s) (rep_counts c lo hi s)"
| "rests (Seq a b) s = concat (map (rests b) (rests a s))"
| "rests (Alt a b) s = rests a s @ rests b s"
| "rests (Grp a) s = rests a s"
| "rests Bol s = [s]"
| "rests Eol s = (if s = [] \<or> s = [nl] then [s] else [])"

definition word_rests :: "string list \<Rightarrow> string \<Rightarrow> string list" where
  "word_rests ws s = map (\<lambda>w. drop (length w) s) (filter (startswith s) ws)"

definition first :: "'a list \<Rightarrow> 'a option" where
  "first xs = (case xs of [] \<Rightarrow> None | x # ys \<Rightarrow> Some x)"

fun first_some :: "('a \<Rightarrow> 'b option) \<Rightarrow> 'a list \<Rightarrow> 'b option" where
  "first_some f [] = None"
| "first_some f (x # xs) = (case f x of Some y \<Rightarrow> Some y | None \<Rightarrow> first_some f xs)"

section \<open>Group 1 always takes part in the matches of the program's patterns\<close>

lemma captures_rmatch:
  "captures p \<Longrightarrow> (t, g) \<in> set (rmatch p bos s) \<Longrightarrow> g \<noteq> None"
proof (induction p arbitrary: bos s t g)
  case (Seq a b)
  then show ?case by (fastforce split: option.splits)
next
  case (Alt a b)
  then show ?case by auto
next
  case (Grp a)
  then show ?case by auto
qed simp_all

lemma captures_ngroups: "captures p \<Longrightarrow> 1 \<le> ngroups p"
  by (induction p) auto

lemma search_from_mem:
  "search_from p bos s = Some m \<Longrightarrow> \<exists>b u. m \<in> set (rmatch p b u)"
proof (induction s arbitrary: bos)
  case Nil
  then have "m \<in> set (rmatch p bos [])" by (cases "rmatch p bos []") auto
  then show ?case by blast
next
  case (Cons c cs)
  show ?case
  proof (cases "rmatch p bos (c # cs)")
    case Nil
    with Cons show ?thesis by simp
  next
    case (Cons x xs)
    with Cons.prems have "m \<in> set (rmatch p bos (c # cs))" by simp
    then show ?thesis by blast
  qed
qed

lemma group1_search:
  assumes "captures p" and "re_search p s = Some m"
  shows "\<exists>g. group1 p m = Inr (Some g)"
proof -
  obtain b u where "m \<in> set (rmatch p b u)"
    using assms(2) search_from_mem unfolding re_search_def by blast
  then have "snd m \<noteq> None"
    using captures_rmatch [OF assms(1), of "fst m" "snd m" b u] by simp
  moreover have "\<not> ngroups p < 1" using captures_ngroups [OF assms(1)] by simp
  ultimately show ?thesis by (auto simp: group1_def)
qed

section \<open>Matches of patterns without \<open>^\<close>, and substitution at the start\<close>

lemma rmatch_rests: "bol_free p \<Longrightarrow> map fst (rmatch p b s) = rests p s"
proof (induction p arbitrary: b s)
  case (Seq p1 p2)
  then have f1: "\<And>b s. map fst (rmatch p1 b s) = rests p1 s"
    and f2: "\<And>b s. map fst (rmatch p2 b s) = rests p2 s" by simp_all
  have "map fst (rmatch (Seq p1 p2) b s)
      = concat (map (\<lambda>x. map fst (rmatch p2 (b \<and> length (fst x) = length s) (fst x)))
          (rmatch p1 b s))"
    by (simp add: map_concat o_def split_beta)
  also have "\<dots> = concat (map (\<lambda>x. rests p2 (fst x)) (rmatch p1 b s))"
    by (simp only: f2)
  also have "\<dots> = concat (map (rests p2) (map fst (rmatch p1 b s)))"
    by (simp add: o_def)
  also have "\<dots> = rests (Seq p1 p2) s" by (simp only: f1 rests.simps)
  finally show ?case .
next
  case (Cls c)
  then show ?case by (cases s) simp_all
next
  case (Grp p)
  then show ?case by (simp add: o_def split_beta)
qed simp_all

lemma sub_after_start: "sub_from (Seq Bol r) repl False adv t = t"
proof (induction t arbitrary: adv)
  case Nil
  show ?case by (subst sub_from.simps) (simp add: first_usable_def)
next
  case (Cons c cs)
  show ?case by (subst sub_from.simps) (simp add: first_usable_def Cons)
qed

lemma rmatch_anchored:
  "bol_free r \<Longrightarrow> map fst (rmatch (Seq Bol r) True s) = rests r s"
proof -
  assume "bol_free r"
  then have "map fst (rmatch r True s) = rests r s" by (rule rmatch_rests)
  then show ?thesis by (simp add: o_def split_beta)
qed

lemma re_sub_no_match:
  assumes "bol_free r" and "rests r s = []"
  shows "re_sub (Seq Bol r) [] s = s"
proof -
  from rmatch_anchored [OF assms(1), of s] assms(2)
  have "rmatch (Seq Bol r) True s = []" by simp
  then show ?thesis
    unfolding re_sub_def
    by (subst sub_from.simps) (simp add: first_usable_def sub_after_start split: list.splits)
qed

lemma re_sub_match:
  assumes "bol_free r" and "rests r s = t # ts" and "length t < length s"
  shows "re_sub (Seq Bol r) [] s = t"
proof -
  from rmatch_anchored [OF assms(1), of s] assms(2)
  obtain g ms where "rmatch (Seq Bol r) True s = (t, g) # ms"
    by (cases "rmatch (Seq Bol r) True s") auto
  then show ?thesis
    unfolding re_sub_def using assms(3)
    by (subst sub_from.simps) (simp add: first_usable_def sub_after_start)
qed

lemma re_sub_empty_match:
  assumes "bol_free r" and "rests r s = [s]"
  shows "re_sub (Seq Bol r) [] s = s"
proof -
  from rmatch_anchored [OF assms(1), of s] assms(2)
  obtain g where m: "rmatch (Seq Bol r) True s = [(s, g)]"
    by (cases "rmatch (Seq Bol r) True s") auto
  have "sub_from (Seq Bol r) [] True True s = s"
    using m by (subst sub_from.simps) (simp add: first_usable_def sub_after_start split: list.splits)
  then show ?thesis
    unfolding re_sub_def using m
    by (subst sub_from.simps) (simp add: first_usable_def)
qed

section \<open>Requirement extraction\<close>

lemma phrase_of_line_total:
  "\<forall>p \<in> set ps. captures p \<Longrightarrow> \<exists>r. phrase_of_line ps l = Inr r"
proof (induction ps)
  case Nil
  then show ?case by simp
next
  case (Cons p ps)
  show ?case
  proof (cases "re_search p l")
    case None
    with Cons show ?thesis by simp
  next
    case (Some m)
    from Cons.prems have "captures p" by simp
    from group1_search [OF this Some] obtain g where "group1 p m = Inr (Some g)" by blast
    with Some show ?thesis by (simp add: Let_def)
  qed
qed

lemma requirement_patterns_capture: "\<forall>p \<in> set requirement_patterns. captures p"
  by (simp add: requirement_patterns_def rest_group_def)

lemma collect_requirements_total:
  "\<exists>r. collect_requirements f ls acc = Inr r"
proof (induction ls arbitrary: acc)
  case Nil
  then show ?case by simp
next
  case (Cons l ls)
  obtain found where "phrase_of_line requirement_patterns (lower (strip l)) = Inr found"
    using phrase_of_line_total [OF requirement_patterns_capture] by blast
  with Cons show ?case by (simp add: Let_def)
qed

text \<open>
  C4. For every document and every feature focus, \<open>extract_requirements_from_document\<close>
  returns a list (it raises nothing), and that list has at most 20 phrases.
\<close>

theorem extraction_at_most_20:
  "\<exists>reqs. extract_requirements_from_document content feature_focus = Inr reqs
     \<and> length reqs \<le> 20"
proof -
  obtain r where "collect_requirements feature_focus (split_nl content) [] = Inr r"
    using collect_requirements_total by blast
  then show ?thesis by (simp add: extract_requirements_from_document_def)
qed

section \<open>Story synthesis\<close>

lemma explicit_benefit_total:
  "\<forall>p \<in> set ps. captures p \<Longrightarrow> \<exists>r. explicit_benefit ps l = Inr r"
proof (induction ps)
  case Nil
  then show ?case by simp
next
  case (Cons p ps)
  show ?case
  proof (cases "re_search p l")
    case None
    with Cons show ?thesis by simp
  next
    case (Some m)
    from Cons.prems have "captures p" by simp
    from group1_search [OF this Some] obtain g where "group1 p m = Inr (Some g)" by blast
    with Some show ?thesis by simp
  qed
qed

lemma benefit_patterns_capture: "\<forall>p \<in> set benefit_patterns. captures p"
  by (simp add: benefit_patterns_def rest_group_def)

lemma extract_benefit_total: "\<exists>b. extract_benefit_from_requirement r = Inr b"
proof -
  obtain x where "explicit_benefit benefit_patterns (lower r) = Inr x"
    using explicit_benefit_total [OF benefit_patterns_capture] by blast
  then show ?thesis
    by (cases x) (simp_all add: extract_benefit_from_requirement_def)
qed

lemma story_for_total: "\<exists>s. story_for fmt i p r = Inr s"
proof -
  obtain b where "extract_benefit_from_requirement r = Inr b"
    using extract_benefit_total by blast
  then show ?thesis by (simp add: story_for_def Let_def)
qed

lemma stories_loop_personas:
  assumes "ps \<noteq> []"
  shows "\<exists>out. stories_loop ps fmt m i rs acc = Inr (acc @ out)
           \<and> length out = min (length rs) (nat (m - int i))
           \<and> (\<forall>j < length out.
                 story_for fmt (i + j) (ps ! ((i + j) mod length ps)) (rs ! j) = Inr (out ! j))"
proof (induction rs arbitrary: i acc)
  case Nil
  then show ?case by simp
next
  case (Cons r rs)
  show ?case
  proof (cases "int i \<ge> m")
    case True
    then show ?thesis by simp
  next
    case False
    obtain s where s: "story_for fmt i (ps ! (i mod length ps)) r = Inr s"
      using story_for_total by blast
    from Cons.IH [of "Suc i" "acc @ [s]"] obtain out where
      out: "stories_loop ps fmt m (Suc i) rs (acc @ [s]) = Inr ((acc @ [s]) @ out)"
        "length out = min (length rs) (nat (m - int (Suc i)))"
        "\<forall>j < length out.
           story_for fmt (Suc i + j) (ps ! ((Suc i + j) mod length ps)) (rs ! j) = Inr (out ! j)"
      by blast
    have run: "stories_loop ps fmt m i (r # rs) acc = Inr (acc @ (s # out))"
      using False assms s out(1) by (simp add: Let_def)
    have len: "length (s # out) = min (length (r # rs)) (nat (m - int i))"
      using False out(2) by simp
    have each: "story_for fmt (i + j) (ps ! ((i + j) mod length ps)) ((r # rs) ! j)
                  = Inr ((s # out) ! j)" if "j < length (s # out)" for j
    proof (cases j)
      case 0
      with s show ?thesis by simp
    next
      case (Suc k)
      with that have "k < length out" by simp
      with out(3) Suc show ?thesis by simp
    qed
    from run len each show ?thesis by blast
  qed
qed

lemma generate_user_stories_personas:
  assumes "ps \<noteq> []" and "reqs \<noteq> []"
  shows "\<exists>stories. generate_user_stories reqs ps fmt m = Inr stories
           \<and> length stories = min (length reqs) (nat m)
           \<and> (\<forall>i < length stories.
                 story_for fmt i (ps ! (i mod length ps)) (reqs ! i) = Inr (stories ! i))"
proof -
  from stories_loop_personas [OF assms(1), of fmt m 0 "slice_to reqs m" "[]"]
  obtain out where
    out: "stories_loop ps fmt m 0 (slice_to reqs m) [] = Inr out"
      "length out = min (length (slice_to reqs m)) (nat m)"
      "\<forall>j < length out. story_for fmt j (ps ! (j mod length ps)) (slice_to reqs m ! j) = Inr (out ! j)"
    by auto
  have len: "length out = min (length reqs) (nat m)"
    using out(2) by (auto simp: slice_to_def)
  have nth: "slice_to reqs m ! j = reqs ! j" if "j < length out" for j
    using that len by (auto simp: slice_to_def)
  from out(1) assms(2) have "generate_user_stories reqs ps fmt m = Inr out"
    by (simp add: generate_user_stories_def)
  with len nth out(3) show ?thesis by auto
qed

text \<open>
  C1. With a requirement and an empty persona list, \<open>generate_user_stories\<close> does not
  substitute the persona \<open>user\<close>: the index \<open>i % len(user_personas)\<close> divides by zero.
  Only the branch for an empty requirement list substitutes the default persona.
\<close>

theorem empty_personas_raise:
  "generate_user_stories [''user must export data''] [] ''standard'' 10 = Inl ZeroDivisionError"
  by code_simp

text \<open>
  C3. With two requirements, \<open>max_stories = 1\<close> and an empty persona list the call raises
  instead of returning \<open>min 2 1 = 1\<close> story.
\<close>

theorem empty_personas_no_stories:
  "generate_user_stories [''users can search orders'', ''users can export data''] [] ''agile'' 1
     = Inl ZeroDivisionError"
  by code_simp

text \<open>
  C5. With a non-empty persona list the call returns a list of stories, and the story at
  index \<open>i\<close> is the one written for persona \<open>user_personas[i mod len(user_personas)]\<close>:
  the story of requirement \<open>i\<close> for that persona or, when there is no requirement, the
  default story for it.
\<close>

theorem persona_cycle:
  assumes "user_personas \<noteq> []"
  shows "\<exists>stories.
     generate_user_stories reqs user_personas story_format max_stories = Inr stories
     \<and> (\<forall>i < length stories.
           if reqs = []
           then stories ! i = generate_default_story (user_personas ! (i mod length user_personas))
           else story_for story_format i (user_personas ! (i mod length user_personas)) (reqs ! i)
                  = Inr (stories ! i))"
proof (cases "reqs = []")
  case True
  with assms show ?thesis by (simp add: generate_user_stories_def)
next
  case False
  from generate_user_stories_personas [OF assms False, of story_format max_stories]
  show ?thesis using False by auto
qed

theorem persona_cycle_witness:
  "[''admin'', ''guest''] \<noteq> []
   \<and> (\<exists>stories.
        generate_user_stories
          [''user can login'', ''user can search'', ''user can edit'', ''user can save'',
           ''user can report'']
          [''admin'', ''guest''] ''standard'' 10 = Inr stories
        \<and> length stories = 5
        \<and> story_for ''standard'' 0 ''admin'' ''user can login'' = Inr (stories ! 0)
        \<and> story_for ''standard'' 1 ''guest'' ''user can search'' = Inr (stories ! 1)
        \<and> story_for ''standard'' 2 ''admin'' ''user can edit'' = Inr (stories ! 2)
        \<and> story_for ''standard'' 3 ''guest'' ''user can save'' = Inr (stories ! 3)
        \<and> story_for ''standard'' 4 ''admin'' ''user can report'' = Inr (stories ! 4))"
proof -
  define rs where "rs = [''user can login'', ''user can search'', ''user can edit'',
    ''user can save'', ''user can report'']"
  define ps where "ps = [''admin'', ''guest'']"
  have ne: "ps \<noteq> []" by (simp add: ps_def)
  have rne: "rs \<noteq> []" by (simp add: rs_def)
  from persona_cycle [OF ne, of rs "''standard''" 10] obtain stories where
    run: "generate_user_stories rs ps ''standard'' 10 = Inr stories"
    and each: "\<forall>i < length stories.
      story_for ''standard'' i (ps ! (i mod length ps)) (rs ! i) = Inr (stories ! i)"
    using rne by auto
  from generate_user_stories_personas [OF ne rne, of "''standard''" 10] run
  have len: "length stories = 5" by (auto simp: rs_def)
  have ith: "story_for ''standard'' i (ps ! (i mod length ps)) (rs ! i) = Inr (stories ! i)"
    if "i < 5" for i
    using each len that by simp
  have p: "ps ! (0 mod length ps) = ''admin''" "ps ! (1 mod length ps) = ''guest''"
    "ps ! (2 mod length ps) = ''admin''" "ps ! (3 mod length ps) = ''guest''"
    "ps ! (4 mod length ps) = ''admin''"
    unfolding ps_def by code_simp+
  have r: "rs ! 0 = ''user can login''" "rs ! 1 = ''user can search''"
    "rs ! 2 = ''user can edit''" "rs ! 3 = ''user can save''" "rs ! 4 = ''user can report''"
    unfolding rs_def by code_simp+
  from ith [of 0] ith [of 1] ith [of 2] ith [of 3] ith [of 4]
  have "story_for ''standard'' 0 ''admin'' ''user can login'' = Inr (stories ! 0)"
    and "story_for ''standard'' 1 ''guest'' ''user can search'' = Inr (stories ! 1)"
    and "story_for ''standard'' 2 ''admin'' ''user can edit'' = Inr (stories ! 2)"
    and "story_for ''standard'' 3 ''guest'' ''user can save'' = Inr (stories ! 3)"
    and "story_for ''standard'' 4 ''admin'' ''user can report'' = Inr (stories ! 4)"
    by (simp_all only: p r)
  with run len show ?thesis unfolding ps_def rs_def by blast
qed

text \<open>
  C10. With no requirement and a non-empty persona list the result is the single default
  story, and its text is the fixed template of \<open>generate_default_story\<close> with the first
  persona, \<open>user_personas[0]\<close>, after \<open>As a\<close>: the same text whatever the story format
  and whatever \<open>max_stories\<close>. The bullet of the template is written as the three bytes
  \<open>0xE2 0x80 0xA2\<close> and the newline as \<open>0x0A\<close>.
\<close>

theorem default_story_first_persona:
  assumes "user_personas \<noteq> []"
  shows "generate_user_stories [] user_personas story_format max_stories
           = Inr [''**User Story 1:**'' @ [CHR 0x0A] @
                  ''As a '' @ (user_personas ! 0) @
                  '', I want to use the system features, so that I can accomplish my goals efficiently.'' @
                  [CHR 0x0A, CHR 0x0A] @
                  ''**Acceptance Criteria:**'' @ [CHR 0x0A] @
                  [CHR 0xE2, CHR 0x80, CHR 0xA2] @ '' Given that I have access to the system'' @
                  [CHR 0x0A] @
                  [CHR 0xE2, CHR 0x80, CHR 0xA2] @ '' When I use the available features'' @
                  [CHR 0x0A] @
                  [CHR 0xE2, CHR 0x80, CHR 0xA2] @ '' Then I can complete my tasks'' @
                  [CHR 0x0A] @
                  [CHR 0xE2, CHR 0x80, CHR 0xA2] @ '' And the system provides helpful feedback'']
         \<and> generate_user_stories [] user_personas other_format other_max
           = generate_user_stories [] user_personas story_format max_stories"
  using assms
  by (simp add: generate_user_stories_def generate_default_story_def bullet_def nl_def)

theorem default_story_first_persona_witness:
  "[''admin'', ''manager''] \<noteq> []
   \<and> generate_user_stories [] [''admin'', ''manager''] ''agile'' 10
       = Inr [''**User Story 1:**'' @ [CHR 0x0A] @
              ''As a admin, I want to use the system features, so that I can accomplish my goals efficiently.'' @
              [CHR 0x0A, CHR 0x0A] @
              ''**Acceptance Criteria:**'' @ [CHR 0x0A] @
              [CHR 0xE2, CHR 0x80, CHR 0xA2] @ '' Given that I have access to the system'' @
              [CHR 0x0A] @
              [CHR 0xE2, CHR 0x80, CHR 0xA2] @ '' When I use the available features'' @
              [CHR 0x0A] @
              [CHR 0xE2, CHR 0x80, CHR 0xA2] @ '' Then I can complete my tasks'' @
              [CHR 0x0A] @
              [CHR 0xE2, CHR 0x80, CHR 0xA2] @ '' And the system provides helpful feedback'']
   \<and> generate_user_stories [] [''admin'', ''manager''] ''detailed'' 3
       = generate_user_stories [] [''admin'', ''manager''] ''agile'' 10"
proof -
  have ne: "[''admin'', ''manager''] \<noteq> []" by simp
  from default_story_first_persona [OF ne, of "''agile''" 10 "''detailed''" 3]
  show ?thesis by simp
qed

section \<open>The two pipelines when no requirement is found\<close>

text \<open>
  C2, as the claim states it, fails on \<open>server.py\<close>: a document without requirement gives
  the two stories of \<open>generate_default_stories\<close>, not one.
\<close>

theorem two_default_stories_counterexample:
  "srv_requirements ''Meeting notes'' [] = []
   \<and> length (generate_stories_from_content ''Meeting notes'' []) = 2"
  by code_simp

text \<open>
  C2, amended. Neither pipeline fails or returns an empty list when there is no
  requirement: \<open>generate_user_stories\<close> of \<open>business_requirements_server.py\<close> returns exactly
  one default story (for the first persona, or for \<open>user\<close> when there is no persona), and
  \<open>generate_stories_from_content\<close> of \<open>server.py\<close> returns its two fixed default stories.
\<close>

theorem empty_requirements_default:
  "generate_user_stories [] user_personas story_format max_stories
     = Inr [generate_default_story (if user_personas \<noteq> [] then user_personas ! 0 else ''user'')]
   \<and> (srv_requirements content feature_focus = [] \<longrightarrow>
        generate_stories_from_content content feature_focus = generate_default_stories)
   \<and> length generate_default_stories = 2"
  by (simp add: generate_user_stories_def generate_stories_from_content_def
        generate_default_stories_def)

theorem empty_requirements_default_witness:
  "srv_requirements ''Release plan'' [] = []
   \<and> generate_user_stories [] [] ''standard'' 10 = Inr [generate_default_story ''user'']
   \<and> generate_stories_from_content ''Release plan'' [] = generate_default_stories"
proof -
  have none: "srv_requirements ''Release plan'' [] = []" by code_simp
  from empty_requirements_default [of "[]" "''standard''" 10 "''Release plan''" "[]"] none
  show ?thesis by simp
qed

section \<open>Structural analysis\<close>

lemma rev_dropWhile_rev_prefix:
  "xs = rev (dropWhile P (rev xs)) @ rev (takeWhile P (rev xs))"
proof -
  have "rev (takeWhile P (rev xs) @ dropWhile P (rev xs)) = rev (rev xs)"
    by (simp only: takeWhile_dropWhile_id)
  then show ?thesis by (simp only: rev_append rev_rev_ident)
qed

lemma dropWhile_strip: "dropWhile isspace (strip s) = strip s"
proof (cases "strip s")
  case Nil
  then show ?thesis by simp
next
  case (Cons c cs)
  define t where "t = dropWhile isspace s"
  define v where "v = rev (takeWhile isspace (rev t))"
  have "t = strip s @ v"
    unfolding strip_def v_def t_def [symmetric] by (rule rev_dropWhile_rev_prefix)
  with Cons have t: "t = c # (cs @ v)" by simp
  then have "t \<noteq> []" by simp
  then have "\<not> isspace (hd t)" unfolding t_def by (rule hd_dropWhile)
  with t have "\<not> isspace c" by simp
  with Cons show ?thesis by simp
qed

lemma strip_idem: "strip (strip s) = strip s"
proof -
  have "strip (strip s) = rev (dropWhile isspace (rev (strip s)))"
    unfolding strip_def [of "strip s"] by (simp only: dropWhile_strip)
  also have "\<dots> = strip s" by (simp add: strip_def dropWhile_idem)
  finally show ?thesis .
qed

lemma header_of_line_bounds:
  "header_of_line ps line = Inr (Some h) \<Longrightarrow> 3 < length h \<and> length h < 100 \<and> strip h = h"
proof (induction ps)
  case Nil
  then show ?case by simp
next
  case (Cons p ps)
  show ?case
  proof (cases "re_match p line")
    case None
    with Cons show ?thesis by simp
  next
    case (Some m)
    show ?thesis
    proof (cases "group1 p m")
      case (Inl e)
      with Some Cons.prems show ?thesis by simp
    next
      case (Inr r)
      show ?thesis
      proof (cases r)
        case None
        with Inr Some Cons.prems show ?thesis by simp
      next
        case g: (Some g)
        with Inr Some Cons.prems
        have "h = strip g" and "3 < length (strip g)" and "length (strip g) < 100"
          by (simp_all add: Let_def split: if_splits)
        then show ?thesis by (simp add: strip_idem)
      qed
    qed
  qed
qed

lemma find_headers_bounds:
  "find_headers ls acc = Inr hs \<Longrightarrow>
   \<forall>h \<in> set acc. 3 < length h \<and> length h < 100 \<and> strip h = h \<Longrightarrow>
   \<forall>h \<in> set hs. 3 < length h \<and> length h < 100 \<and> strip h = h"
proof (induction ls arbitrary: acc)
  case Nil
  then show ?case by simp
next
  case (Cons l ls)
  show ?case
  proof (cases "strip l = []")
    case True
    with Cons.prems(1) have "find_headers ls acc = Inr hs" by simp
    then show ?thesis using Cons.prems(2) by (rule Cons.IH)
  next
    case False
    show ?thesis
    proof (cases "header_of_line header_patterns (strip l)")
      case (Inl e)
      with False Cons.prems(1) show ?thesis by (simp add: Let_def)
    next
      case (Inr r)
      show ?thesis
      proof (cases r)
        case None
        with Inr False Cons.prems(1) have "find_headers ls acc = Inr hs" by (simp add: Let_def)
        then show ?thesis using Cons.prems(2) by (rule Cons.IH)
      next
        case (Some h)
        with Inr have "3 < length h \<and> length h < 100 \<and> strip h = h"
          using header_of_line_bounds by blast
        with Cons.prems(2) have ok: "\<forall>x \<in> set (acc @ [h]). 3 < length x \<and> length x < 100 \<and> strip x = x"
          by auto
        from Some Inr False Cons.prems(1)
        have "find_headers ls (acc @ [h]) = Inr hs" by (simp add: Let_def)
        then show ?thesis using ok by (rule Cons.IH)
      qed
    qed
  qed
qed

lemma find_requirements_filter:
  "find_requirements ls acc =
     acc @ filter (\<lambda>line. 20 < length line
                     \<and> list_ex (\<lambda>keyword. contains (lower line) keyword) requirement_keywords)
             (map strip ls)"
  by (induction ls arbitrary: acc) (simp_all add: Let_def)

lemma analyze_fields:
  assumes "analyze_document_structure content = Inr a"
  shows "find_headers (split_nl content) [] = Inr (headers a)"
    and "requirements a = find_requirements (split_nl content) []"
proof -
  obtain hs where hs: "find_headers (split_nl content) [] = Inr hs"
    using assms by (cases "find_headers (split_nl content) []")
      (simp_all add: analyze_document_structure_def Let_def)
  with assms have "headers a = hs \<and> requirements a = find_requirements (split_nl content) []"
    by (auto simp add: analyze_document_structure_def Let_def)
  with hs show "find_headers (split_nl content) [] = Inr (headers a)"
    and "requirements a = find_requirements (split_nl content) []" by simp_all
qed

text \<open>
  C8. Whenever the analysis returns a profile, every string of its \<open>headers\<close> has a
  trimmed length strictly greater than 3 and strictly less than 100.
\<close>

theorem headers_length_bounds:
  assumes "analyze_document_structure content = Inr a" and "h \<in> set (headers a)"
  shows "3 < length (strip h) \<and> length (strip h) < 100"
proof -
  from assms(1) have "find_headers (split_nl content) [] = Inr (headers a)"
    by (rule analyze_fields)
  moreover have "\<forall>h \<in> set []. 3 < length h \<and> length h < 100 \<and> strip h = h" by simp
  ultimately have "\<forall>h \<in> set (headers a). 3 < length h \<and> length h < 100 \<and> strip h = h"
    by (rule find_headers_bounds)
  with assms(2) have "3 < length h \<and> length h < 100 \<and> strip h = h" by blast
  then show ?thesis by simp
qed

theorem headers_length_bounds_witness:
  "\<exists>a. analyze_document_structure ''# Overview of it'' = Inr a
     \<and> ''Overview of it'' \<in> set (headers a)
     \<and> 3 < length (strip ''Overview of it'') \<and> length (strip ''Overview of it'') < 100"
proof -
  define a where "a = \<lparr> total_lines = 1, total_words = 4, total_chars = 16,
    headers = [''Overview of it''], requirements = [], estimated_stories = 3,
    complexity_level = ''Low'' \<rparr>"
  have run: "analyze_document_structure ''# Overview of it'' = Inr a"
    unfolding a_def by code_simp
  have mem: "''Overview of it'' \<in> set (headers a)" by (simp add: a_def)
  from headers_length_bounds [OF run mem] run mem show ?thesis by blast
qed

text \<open>
  A line of \<open>content.split('\n')\<close> holds no newline, so the two underline patterns,
  which require one, match no line of any document. A line in capitals matches the third
  pattern, which has no group, and \<open>match.group(1)\<close> raises.
\<close>

lemma split_nl_no_newline: "l \<in> set (split_nl s) \<Longrightarrow> nl \<notin> set l"
proof (induction s arbitrary: l)
  case Nil
  then show ?case by simp
next
  case (Cons c cs)
  show ?case
  proof (cases "c = nl")
    case True
    with Cons show ?thesis by auto
  next
    case False
    show ?thesis
    proof (cases "split_nl cs")
      case Nil
      with False Cons.prems show ?thesis by simp
    next
      case (Cons x xs)
      with False Cons.prems have "l = c # x \<or> l \<in> set xs" by simp
      moreover have "nl \<notin> set x" by (rule Cons.IH) (simp add: Cons)
      moreover have "nl \<notin> set l" if "l \<in> set xs" by (rule Cons.IH) (simp add: Cons that)
      ultimately show ?thesis using False by auto
    qed
  qed
qed

lemma set_strip: "set (strip l) \<subseteq> set l"
proof -
  have "set (strip l) \<subseteq> set (dropWhile isspace l)"
    unfolding strip_def using set_dropWhileD by fastforce
  also have "\<dots> \<subseteq> set l" using set_dropWhileD by fastforce
  finally show ?thesis .
qed

lemma underline_never_matches:
  assumes "nl \<notin> set line"
  shows "re_match (seqs [Bol, rest_group, Lit [nl], plus (Cset cs), Eol]) line = None"
proof -
  define T where "T = Seq (Lit [nl]) (Seq (plus (Cset cs)) Eol)"
  have none: "rests T (drop j line) = []" for j
  proof -
    have "\<not> startswith (drop j line) [nl]"
    proof
      assume "startswith (drop j line) [nl]"
      then have "take 1 (drop j line) = [nl]" by (simp add: startswith_def)
      then have "nl \<in> set (take 1 (drop j line))" by simp
      then have "nl \<in> set (drop j line)" by (rule in_set_takeD)
      then have "nl \<in> set line" by (rule in_set_dropD)
      with assms show False by simp
    qed
    then show ?thesis by (simp add: T_def)
  qed
  have "rests (Seq rest_group T) line = []"
    by (simp add: rest_group_def plus_def none)
  moreover have "bol_free (Seq rest_group T)"
    by (simp add: rest_group_def plus_def T_def)
  ultimately have "map fst (rmatch (Seq Bol (Seq rest_group T)) True line) = []"
    by (simp only: rmatch_anchored)
  then have r: "rmatch (Seq Bol (Seq rest_group T)) True line = []" by simp
  have eq: "seqs [Bol, rest_group, Lit [nl], plus (Cset cs), Eol] = Seq Bol (Seq rest_group T)"
    by (simp add: T_def)
  show ?thesis unfolding re_match_def eq r by simp
qed

lemma underline_patterns_dead:
  assumes "l \<in> set (split_nl content)"
  shows "re_match (header_patterns ! 3) (strip l) = None
       \<and> re_match (header_patterns ! 4) (strip l) = None"
proof -
  from assms have "nl \<notin> set l" by (rule split_nl_no_newline)
  with set_strip have "nl \<notin> set (strip l)" by blast
  then show ?thesis
    by (simp add: header_patterns_def underline_never_matches del: seqs.simps)
qed

lemma all_caps_line_raises: "analyze_document_structure ''OVERVIEW'' = Inl IndexError"
  by code_simp

text \<open>
  C7. The two underline patterns are matched against single lines, which never hold a
  newline, so an underlined heading is not found: here the heading \<open>Overview\<close>, of length
  8, is missing from \<open>headers\<close>.
\<close>

theorem underline_heading_missed:
  "analyze_document_structure (''Overview'' @ [nl] @ ''========'') =
     Inr \<lparr> total_lines = 2, total_words = 2, total_chars = 17, headers = [],
           requirements = [], estimated_stories = 3, complexity_level = ''Low'' \<rparr>
   \<and> length (strip ''Overview'') = 8"
  by code_simp

text \<open>
  C6, as the claim states it, fails: a line that holds a keyword but is not longer than
  20 characters is not appended.
\<close>

theorem short_requirement_line_counterexample:
  "''must'' \<in> set requirement_keywords
   \<and> contains (lower (strip ''users must log in'')) ''must''
   \<and> analyze_document_structure ''users must log in'' =
       Inr \<lparr> total_lines = 1, total_words = 4, total_chars = 17, headers = [],
             requirements = [], estimated_stories = 3, complexity_level = ''Low'' \<rparr>"
  by code_simp

text \<open>
  C6, amended. Whenever the analysis returns a profile, the trimmed text of a line of the
  document is in \<open>requirements\<close> exactly when it is longer than 20 characters and its
  lowercased text contains a keyword of the requirement keyword set.
\<close>

theorem requirement_lines_guard:
  assumes "analyze_document_structure content = Inr a" and "line \<in> set (split_nl content)"
  shows "strip line \<in> set (requirements a) \<longleftrightarrow>
           20 < length (strip line)
           \<and> (\<exists>keyword \<in> set requirement_keywords. contains (lower (strip line)) keyword)"
proof -
  have "requirements a = find_requirements (split_nl content) []"
    using assms(1) by (rule analyze_fields)
  then have "set (requirements a) =
      {l \<in> strip ` set (split_nl content). 20 < length l
         \<and> (\<exists>keyword \<in> set requirement_keywords. contains (lower l) keyword)}"
    by (simp add: find_requirements_filter list_ex_iff)
  with assms(2) show ?thesis by blast
qed

theorem requirement_lines_guard_witness:
  "\<exists>a. analyze_document_structure ''The system shall allow users to log in.'' = Inr a
     \<and> ''The system shall allow users to log in.''
          \<in> set (split_nl ''The system shall allow users to log in.'')
     \<and> 20 < length (strip ''The system shall allow users to log in.'')
     \<and> (\<exists>keyword \<in> set requirement_keywords.
           contains (lower (strip ''The system shall allow users to log in.'')) keyword)
     \<and> strip ''The system shall allow users to log in.'' \<in> set (requirements a)"
proof -
  define a where "a = \<lparr> total_lines = 1, total_words = 8, total_chars = 39,
    headers = [], requirements = [''The system shall allow users to log in.''],
    estimated_stories = 3, complexity_level = ''Low'' \<rparr>"
  have run: "analyze_document_structure ''The system shall allow users to log in.'' = Inr a"
    unfolding a_def by code_simp
  have mem: "''The system shall allow users to log in.''
      \<in> set (split_nl ''The system shall allow users to log in.'')" by code_simp
  have long: "20 < length (strip ''The system shall allow users to log in.'')" by code_simp
  have kw: "\<exists>keyword \<in> set requirement_keywords.
      contains (lower (strip ''The system shall allow users to log in.'')) keyword"
    by code_simp
  from requirement_lines_guard [OF run mem] long kw
  have "strip ''The system shall allow users to log in.'' \<in> set (requirements a)" by blast
  with run mem long kw show ?thesis by blast
qed

section \<open>The three stripping rules as string functions\<close>

lemma startswith_append:
  "startswith s (u @ v) \<longleftrightarrow> startswith s u \<and> startswith (drop (length u) s) v"
proof (cases "length u \<le> length s")
  case True
  then have "length (take (length u) s) = length u" by simp
  then show ?thesis
    unfolding startswith_def by (simp add: take_add)
next
  case False
  then have "take (length u) s \<noteq> u" and "take (length u + length v) s \<noteq> u @ v"
    by (metis length_take min.absorb1 nat_le_linear not_less order_refl length_append le_add1 le_trans)+
  then show ?thesis unfolding startswith_def by simp
qed

lemma spaces_run:
  assumes "j < length (takeWhile isspace s)"
  shows "drop j s \<noteq> []" and "isspace (hd (drop j s))"
proof -
  from assms have js: "j < length s"
    by (meson length_takeWhile_le less_le_trans)
  then show "drop j s \<noteq> []" by simp
  have "takeWhile isspace s ! j = s ! j" using assms by (rule takeWhile_nth)
  moreover have "takeWhile isspace s ! j \<in> set (takeWhile isspace s)"
    using assms by simp
  ultimately have "isspace (s ! j)" by (metis set_takeWhileD)
  with js show "isspace (hd (drop j s))" by (simp add: hd_drop_conv_nth)
qed

lemma rests_ws1:
  "rests ws1 s = map (\<lambda>j. drop j s) (rev [1 ..< Suc (length (takeWhile isspace s))])"
proof -
  have "in_class Cspace = isspace" by (rule ext) simp
  then show ?thesis by (simp add: ws1_def plus_def rep_counts_def Let_def del: upt_Suc)
qed

lemma skip_spaces1_run:
  "skip_spaces1 s = (if 0 < length (takeWhile isspace s) then Some (dropWhile isspace s) else None)"
  by (cases s) (simp_all add: skip_spaces1_def)

lemma rests_ws1_split:
  assumes "0 < length (takeWhile isspace s)"
  shows "rests ws1 s = dropWhile isspace s #
           map (\<lambda>j. drop j s) (rev [1 ..< length (takeWhile isspace s)])"
proof -
  define n where "n = length (takeWhile isspace s)"
  from assms have "1 \<le> n" unfolding n_def by arith
  then have "[1 ..< Suc n] = [1 ..< n] @ [n]" by simp
  moreover have "drop n s = dropWhile isspace s"
    unfolding n_def by (simp add: dropWhile_eq_drop)
  ultimately show ?thesis unfolding rests_ws1 n_def [symmetric] by (simp del: upt_Suc)
qed

lemma first_rests_ws1: "first (rests ws1 s) = skip_spaces1 s"
proof (cases "0 < length (takeWhile isspace s)")
  case True
  then show ?thesis by (simp add: rests_ws1_split skip_spaces1_run first_def)
next
  case False
  then show ?thesis by (simp add: rests_ws1 skip_spaces1_run first_def)
qed

lemma rests_ws1_then:
  assumes rej: "\<And>t. t \<noteq> [] \<Longrightarrow> isspace (hd t) \<Longrightarrow> rests k t = []"
  shows "rests (Seq ws1 k) s = (case skip_spaces1 s of None \<Rightarrow> [] | Some t \<Rightarrow> rests k t)"
proof (cases "0 < length (takeWhile isspace s)")
  case True
  have "rests k (drop j s) = []" if "j \<in> set (rev [1 ..< length (takeWhile isspace s)])" for j
  proof -
    from that have "j < length (takeWhile isspace s)" by simp
    from spaces_run [OF this] show ?thesis by (rule rej)
  qed
  then have "concat (map (rests k) (map (\<lambda>j. drop j s) (rev [1 ..< length (takeWhile isspace s)]))) = []"
    by (simp del: set_rev set_upt)
  with True show ?thesis by (simp add: rests_ws1_split skip_spaces1_run)
next
  case False
  then show ?thesis by (simp add: rests_ws1 skip_spaces1_run)
qed

lemma first_append:
  "first (xs @ ys) = (case first xs of Some x \<Rightarrow> Some x | None \<Rightarrow> first ys)"
  by (cases xs) (simp_all add: first_def)

lemma first_concat: "first (concat (map f us)) = first_some (\<lambda>u. first (f u)) us"
proof (induction us)
  case Nil
  show ?case by (simp add: first_def)
next
  case (Cons u us)
  then show ?case by (simp add: first_append split: option.splits)
qed

lemma word_rests_Nil: "word_rests [] s = []"
  by (simp add: word_rests_def)

lemma word_rests_Cons:
  "word_rests (w # ws) s = (if startswith s w then [drop (length w) s] else []) @ word_rests ws s"
  by (simp add: word_rests_def)

lemma word_rests_append: "word_rests (xs @ ys) s = word_rests xs s @ word_rests ys s"
  by (simp add: word_rests_def)

lemma strip_word_first_some: "strip_word ws s = first_some skip_spaces1 (word_rests ws s)"
  by (induction ws) (simp_all add: word_rests_Nil word_rests_Cons split: option.splits)

lemma rests_Lit_words: "rests (Lit w) s = word_rests [w] s"
  by (simp add: word_rests_def)

lemma rests_word_s: "rests (word_s w) s = word_rests [w @ ''s'', w] s"
  by (auto simp: word_s_def opt_def word_rests_def startswith_append)

lemma first_None_iff: "first xs = None \<longleftrightarrow> xs = []"
  by (cases xs) (simp_all add: first_def)

lemma first_Some_Cons: "first xs = Some x \<Longrightarrow> \<exists>ys. xs = x # ys"
  by (cases xs) (simp_all add: first_def)

lemma re_sub_first:
  assumes "bol_free r" and "\<And>t. first (rests r s) = Some t \<Longrightarrow> length t < length s"
  shows "re_sub (Seq Bol r) [] s = (case first (rests r s) of None \<Rightarrow> s | Some t \<Rightarrow> t)"
proof (cases "first (rests r s)")
  case None
  then have "rests r s = []" by (simp add: first_None_iff)
  with assms(1) None show ?thesis by (simp add: re_sub_no_match)
next
  case (Some t)
  then have "\<exists>ts. rests r s = t # ts" by (rule first_Some_Cons)
  then obtain ts where ts: "rests r s = t # ts" ..
  moreover from Some have "length t < length s" by (rule assms(2))
  ultimately show ?thesis using assms(1) Some by (simp add: re_sub_match)
qed

lemma skip_spaces1_Some:
  assumes "skip_spaces1 u = Some v"
  shows "u \<noteq> []" and "isspace (hd u)" and "length v < length u"
proof -
  from assms show ne: "u \<noteq> []" and sp: "isspace (hd u)"
    by (auto simp: skip_spaces1_def split: if_splits)
  from ne obtain c cs where u: "u = c # cs" by (cases u) auto
  with sp assms have "v = dropWhile isspace cs" by (simp add: skip_spaces1_def)
  then have "length v \<le> length cs" by (simp add: length_dropWhile_le)
  with u show "length v < length u" by simp
qed

lemma spaced_word_length:
  assumes "startswith s w'" and "skip_spaces1 (drop (length w) s) = Some v"
    and "\<forall>c \<in> set w'. \<not> isspace c"
  shows "\<not> length w < length w'"
proof
  assume less: "length w < length w'"
  from skip_spaces1_Some(1,2) [OF assms(2)]
  have ne: "drop (length w) s \<noteq> []" and sp: "isspace (hd (drop (length w) s))" by simp_all
  from ne have ws: "length w < length s" by simp
  with sp have "isspace (s ! length w)" by (simp add: hd_drop_conv_nth)
  moreover from assms(1) have "take (length w') s = w'" by (simp add: startswith_def)
  then have "w' ! length w = s ! length w" using less by (metis nth_take)
  moreover from less have "w' ! length w \<in> set w'" by simp
  ultimately show False using assms(3) by auto
qed

lemma spaced_word_unique:
  assumes "startswith s w" and "skip_spaces1 (drop (length w) s) = Some v"
    and "startswith s w'" and "skip_spaces1 (drop (length w') s) = Some v'"
    and "\<forall>c \<in> set w. \<not> isspace c" and "\<forall>c \<in> set w'. \<not> isspace c"
  shows "v = v'"
proof -
  from spaced_word_length [OF assms(3) assms(2) assms(6)]
       spaced_word_length [OF assms(1) assms(4) assms(5)]
  have "length w = length w'" by simp
  with assms(2,4) show ?thesis by simp
qed

lemma strip_word_SomeD:
  "strip_word ws s = Some v \<Longrightarrow>
   \<exists>w \<in> set ws. startswith s w \<and> skip_spaces1 (drop (length w) s) = Some v"
  by (induction ws) (auto split: option.splits if_splits)

lemma strip_word_SomeI:
  assumes "\<forall>w \<in> set ws. \<forall>c \<in> set w. \<not> isspace c"
    and "w \<in> set ws" and "startswith s w" and "skip_spaces1 (drop (length w) s) = Some v"
  shows "strip_word ws s = Some v"
  using assms
proof (induction ws)
  case Nil
  then show ?case by simp
next
  case (Cons x xs)
  show ?case
  proof (cases "startswith s x \<and> skip_spaces1 (drop (length x) s) \<noteq> None")
    case True
    then obtain v' where x: "startswith s x" "skip_spaces1 (drop (length x) s) = Some v'"
      by auto
    from Cons.prems(1,2) have "\<forall>c \<in> set x. \<not> isspace c" "\<forall>c \<in> set w. \<not> isspace c"
      by auto
    from spaced_word_unique [OF x Cons.prems(3,4) this] have "v' = v" .
    with x show ?thesis by simp
  next
    case False
    with Cons.prems(3,4) have "w \<noteq> x" by auto
    with Cons.prems(2) have mem: "w \<in> set xs" by simp
    from Cons.prems(1) have free: "\<forall>w \<in> set xs. \<forall>c \<in> set w. \<not> isspace c" by simp
    from free mem Cons.prems(3,4) have "strip_word xs s = Some v" by (rule Cons.IH)
    with False show ?thesis by (auto split: option.splits)
  qed
qed

lemma strip_word_set_cong:
  assumes "\<forall>w \<in> set ws. \<forall>c \<in> set w. \<not> isspace c" and "set ws' = set ws"
  shows "strip_word ws' s = strip_word ws s"
proof -
  have ws': "\<forall>w \<in> set ws'. \<forall>c \<in> set w. \<not> isspace c" using assms by simp
  have one: "strip_word ys s = Some v"
    if "strip_word xs s = Some v" and "set xs = set ys"
      and "\<forall>w \<in> set ys. \<forall>c \<in> set w. \<not> isspace c" for xs ys v
  proof -
    from strip_word_SomeD [OF that(1)] obtain w where
      w: "w \<in> set xs" "startswith s w" "skip_spaces1 (drop (length w) s) = Some v"
      by (elim bexE conjE)
    from w(1) that(2) have "w \<in> set ys" by simp
    with that(3) show ?thesis using w(2,3) by (rule strip_word_SomeI)
  qed
  show ?thesis
  proof (cases "strip_word ws' s")
    case None
    show ?thesis
    proof (cases "strip_word ws s")
      case n: None
      with None show ?thesis by simp
    next
      case (Some v)
      from one [OF Some assms(2) [symmetric] ws'] None show ?thesis by simp
    qed
  next
    case (Some v)
    from one [OF Some assms(2) assms(1)] Some show ?thesis by simp
  qed
qed

lemma strip_word_shorter: "strip_word ws s = Some t \<Longrightarrow> length t < length s"
proof -
  assume "strip_word ws s = Some t"
  from strip_word_SomeD [OF this] obtain w :: string where
    "skip_spaces1 (drop (length w) s) = Some t" by (elim bexE conjE)
  from skip_spaces1_Some(3) [OF this] show ?thesis by simp
qed

lemma first_some_None_iff: "first_some f us = None \<longleftrightarrow> (\<forall>u \<in> set us. f u = None)"
  by (induction us) (auto split: option.splits)

lemma first_some_bind:
  assumes "\<And>u u' v v'. u \<in> set us \<Longrightarrow> u' \<in> set us \<Longrightarrow> k u = Some v \<Longrightarrow> k u' = Some v'
             \<Longrightarrow> v = v'"
  shows "first_some (\<lambda>u. case k u of None \<Rightarrow> None | Some v \<Rightarrow> g v) us
           = (case first_some k us of None \<Rightarrow> None | Some v \<Rightarrow> g v)"
  using assms
proof (induction us)
  case Nil
  show ?case by simp
next
  case (Cons u us)
  have IH: "first_some (\<lambda>u. case k u of None \<Rightarrow> None | Some v \<Rightarrow> g v) us
           = (case first_some k us of None \<Rightarrow> None | Some v \<Rightarrow> g v)"
    by (rule Cons.IH) (use Cons.prems in auto)
  show ?case
  proof (cases "k u")
    case None
    with IH show ?thesis by simp
  next
    case (Some v)
    show ?thesis
    proof (cases "g v")
      case gv: None
      have "(case k u' of None \<Rightarrow> None | Some v \<Rightarrow> g v) = None" if "u' \<in> set us" for u'
      proof (cases "k u'")
        case None
        then show ?thesis by simp
      next
        case u': (Some v')
        from Cons.prems [of u u' v v'] Some u' that have "v = v'" by simp
        with gv u' show ?thesis by simp
      qed
      then have "first_some (\<lambda>u. case k u of None \<Rightarrow> None | Some v \<Rightarrow> g v) us = None"
        by (simp add: first_some_None_iff)
      with Some gv show ?thesis by simp
    next
      case (Some y)
      with \<open>k u = Some v\<close> show ?thesis by simp
    qed
  qed
qed

lemma word_rests_hd:
  assumes "\<forall>w \<in> set ws. w \<noteq> [] \<and> \<not> P (hd w)" and "s \<noteq> []" and "P (hd s)"
  shows "word_rests ws s = []"
proof -
  have "\<not> startswith s w" if "w \<in> set ws" for w
  proof
    assume "startswith s w"
    then have "take (length w) s = w" by (simp add: startswith_def)
    moreover from that assms(1) have "w \<noteq> []" "\<not> P (hd w)" by auto
    ultimately have "hd w = hd s" by (metis hd_take length_greater_0_conv)
    with \<open>\<not> P (hd w)\<close> assms(3) show False by simp
  qed
  then show ?thesis by (simp add: word_rests_def)
qed

lemma word_rests_mem:
  "u \<in> set (word_rests ws s) \<Longrightarrow> \<exists>w \<in> set ws. startswith s w \<and> u = drop (length w) s"
  by (auto simp: word_rests_def)

lemma first_spaced_words:
  assumes "\<And>s. rests r s = word_rests ws s"
  shows "first (rests (Seq r ws1) s) = strip_word ws s"
proof -
  have "first (rests (Seq r ws1) s) = first (concat (map (rests ws1) (word_rests ws s)))"
    by (simp add: assms)
  also have "\<dots> = first_some (\<lambda>u. first (rests ws1 u)) (word_rests ws s)"
    by (rule first_concat)
  also have "\<dots> = first_some skip_spaces1 (word_rests ws s)"
    by (simp add: first_rests_ws1)
  also have "\<dots> = strip_word ws s" by (simp add: strip_word_first_some)
  finally show ?thesis .
qed

lemma bol_free_ws1: "bol_free ws1"
  by (simp add: ws1_def plus_def)

lemma bol_free_word_s: "bol_free (word_s w)"
  by (simp add: word_s_def opt_def)

lemma verb_words_space_free:
  "\<forall>w \<in> set [''provide'', ''provides'', ''enable'', ''enables'', ''allow'', ''allows'',
                ''support'', ''supports'', ''implement'', ''implements''].
     \<forall>c \<in> set w. \<not> isspace c"
  by code_simp

lemma verb_words_set:
  "set [''provides'', ''provide'', ''enables'', ''enable'', ''allows'', ''allow'',
        ''supports'', ''support'', ''implements'', ''implement'']
   = set [''provide'', ''provides'', ''enable'', ''enables'', ''allow'', ''allows'',
          ''support'', ''supports'', ''implement'', ''implements'']"
  by code_simp

lemma verb_rule: "re_sub verb_prefix [] s = strip_verb s"
proof -
  define V where "V = alts (word_s ''provide'')
    [word_s ''enable'', word_s ''allow'', word_s ''support'', word_s ''implement'']"
  define L where "L = [''provides'', ''provide'', ''enables'', ''enable'', ''allows'', ''allow'',
        ''supports'', ''support'', ''implements'', ''implement'']"
  define L' where "L' = [''provide'', ''provides'', ''enable'', ''enables'', ''allow'', ''allows'',
                ''support'', ''supports'', ''implement'', ''implements'']"
  have rv: "rests V s = word_rests L s" for s
    by (simp add: V_def L_def rests_word_s word_rests_def)
  have bf: "bol_free (Seq V ws1)"
    by (simp add: V_def bol_free_word_s bol_free_ws1)
  have "first (rests (Seq V ws1) s) = strip_word L s" by (rule first_spaced_words) (rule rv)
  also have "\<dots> = strip_word L' s"
    unfolding L_def L'_def by (rule strip_word_set_cong [OF verb_words_space_free verb_words_set])
  finally have fst: "first (rests (Seq V ws1) s) = strip_word L' s" .
  have short: "length t < length s" if "first (rests (Seq V ws1) s) = Some t" for t
    using that unfolding fst by (rule strip_word_shorter)
  have vp: "verb_prefix = Seq Bol (Seq V ws1)" by (simp add: verb_prefix_def V_def)
  from re_sub_first [OF bf short]
  have "re_sub verb_prefix [] s = (case strip_word L' s of None \<Rightarrow> s | Some t \<Rightarrow> t)"
    unfolding vp fst by simp
  then show ?thesis by (simp add: strip_verb_def L'_def)
qed

lemma to_rule: "re_sub to_prefix [] s = strip_to s"
proof -
  define X where "X = Seq (Lit ''to'') ws1"
  have tp: "to_prefix = Seq Bol (Alt X Eps)" by (simp add: to_prefix_def opt_def X_def)
  have bf: "bol_free (Alt X Eps)" by (simp add: X_def bol_free_ws1)
  have fst: "first (rests X s) = strip_word [''to''] s"
    unfolding X_def by (rule first_spaced_words) (rule rests_Lit_words)
  show ?thesis
  proof (cases "strip_word [''to''] s")
    case None
    with fst have "rests X s = []" by (simp add: first_None_iff)
    then have "rests (Alt X Eps) s = [s]" by simp
    with bf have "re_sub (Seq Bol (Alt X Eps)) [] s = s" by (rule re_sub_empty_match)
    with None show ?thesis by (simp add: tp strip_to_def)
  next
    case (Some t)
    with fst have "first (rests X s) = Some t" by simp
    then have "\<exists>ts. rests X s = t # ts" by (rule first_Some_Cons)
    then obtain ts where "rests X s = t # ts" ..
    then have r: "rests (Alt X Eps) s = t # (ts @ [s])" by simp
    from Some have "length t < length s" by (rule strip_word_shorter)
    with bf r have "re_sub (Seq Bol (Alt X Eps)) [] s = t" by (rule re_sub_match)
    with Some show ?thesis by (simp add: tp strip_to_def)
  qed
qed

lemma subject_words_space_free:
  "\<forall>w \<in> set [''system'', ''application'', ''user'', ''users''].
     \<forall>c \<in> set w. \<not> isspace c"
  by code_simp

lemma subject_words_set:
  "set [''system'', ''application'', ''user'', ''users'', ''user'']
   = set [''system'', ''application'', ''user'', ''users'']"
  by code_simp

lemma subject_words5_space_free:
  "\<forall>w \<in> set [''system'', ''application'', ''user'', ''users'', ''user''].
     \<forall>c \<in> set w. \<not> isspace c"
  by code_simp

lemma subject_words_heads:
  "\<forall>w \<in> set [''system'', ''application'', ''user'', ''users'', ''user''].
     w \<noteq> [] \<and> \<not> (isspace (hd w) \<or> hd w = CHR ''t'')"
  by code_simp

lemma modal_words_heads:
  "\<forall>w \<in> set [''can'', ''should'', ''must'', ''will'', ''shall'']. w \<noteq> [] \<and> \<not> isspace (hd w)"
  by code_simp

lemma startswith_hd:
  assumes "startswith s w" and "w \<noteq> []"
  shows "s \<noteq> []" and "hd s = hd w"
proof -
  from assms(1) have t: "take (length w) s = w" by (simp add: startswith_def)
  with assms(2) show "s \<noteq> []" by auto
  from assms(2) have "0 < length w" by simp
  then have "hd (take (length w) s) = hd s" by (rule hd_take)
  with t show "hd s = hd w" by simp
qed

lemma subject_modal_rule: "re_sub subject_modal_prefix [] s = strip_subject_modal s"
proof -
  define modals where "modals = [''can'', ''should'', ''must'', ''will'', ''shall'']"
  define subj5 where "subj5 = [''system'', ''application'', ''user'', ''users'', ''user'']"
  define subj4 where "subj4 = [''system'', ''application'', ''user'', ''users'']"
  define MODAL where "MODAL = lits ''can'' [''should'', ''must'', ''will'', ''shall'']"
  define SUBJ where
    "SUBJ = alts (Lit ''system'') [Lit ''application'', Lit ''user'', word_s ''user'']"
  define M1 where "M1 = Seq MODAL ws1"
  define K where "K = Seq ws1 M1"
  define REST where "REST = Seq SUBJ K"
  define X where "X = Seq (Lit ''the'') ws1"
  define R1 where "R1 = Seq (Alt X Eps) REST"
  have sp: "subject_modal_prefix = Seq Bol R1"
    by (simp add: subject_modal_prefix_def R1_def X_def REST_def K_def M1_def SUBJ_def
          MODAL_def opt_def)
  have bf: "bol_free R1"
    by (simp add: R1_def X_def REST_def K_def M1_def SUBJ_def MODAL_def lits_def
          bol_free_ws1 bol_free_word_s)
  have rm: "rests MODAL u = word_rests modals u" for u
    by (simp add: MODAL_def modals_def lits_def word_rests_def)
  have rs: "rests SUBJ u = word_rests subj5 u" for u
    by (simp add: SUBJ_def subj5_def rests_word_s word_rests_def)
  have fM1: "first (rests M1 u) = strip_word modals u" for u
    unfolding M1_def by (rule first_spaced_words) (rule rm)
  have rejM1: "rests M1 u = []" if "u \<noteq> []" and "isspace (hd u)" for u
  proof -
    have "word_rests modals u = []"
      unfolding modals_def using modal_words_heads that by (rule word_rests_hd)
    then show ?thesis by (simp add: M1_def rm)
  qed
  have rK: "rests K u = (case skip_spaces1 u of None \<Rightarrow> [] | Some v \<Rightarrow> rests M1 v)" for u
    unfolding K_def by (rule rests_ws1_then) (rule rejM1)
  have fK: "first (rests K u)
      = (case skip_spaces1 u of None \<Rightarrow> None | Some v \<Rightarrow> strip_word modals v)" for u
  proof (cases "skip_spaces1 u")
    case None
    then show ?thesis by (simp add: rK first_def)
  next
    case (Some v)
    then show ?thesis by (simp add: rK fM1)
  qed
  have uniq: "v = v'"
    if "u \<in> set (word_rests subj5 t)" and "u' \<in> set (word_rests subj5 t)"
      and "skip_spaces1 u = Some v" and "skip_spaces1 u' = Some v'" for t u u' v v'
  proof -
    from word_rests_mem [OF that(1)] obtain w where
      w: "w \<in> set subj5" "startswith t w" "u = drop (length w) t" by (elim bexE conjE)
    from word_rests_mem [OF that(2)] obtain w' where
      w': "w' \<in> set subj5" "startswith t w'" "u' = drop (length w') t" by (elim bexE conjE)
    have fw: "\<forall>c \<in> set w. \<not> isspace c"
      using subject_words5_space_free w(1) unfolding subj5_def by (rule bspec)
    have fw': "\<forall>c \<in> set w'. \<not> isspace c"
      using subject_words5_space_free w'(1) unfolding subj5_def by (rule bspec)
    from that(3) w(3) have sw: "skip_spaces1 (drop (length w) t) = Some v" by simp
    from that(4) w'(3) have sw': "skip_spaces1 (drop (length w') t) = Some v'" by simp
    from w(2) sw w'(2) sw' fw fw' show ?thesis by (rule spaced_word_unique)
  qed
  have fREST: "first (rests REST t)
      = (case strip_word subj4 t of None \<Rightarrow> None | Some v \<Rightarrow> strip_word modals v)" for t
  proof -
    have "first (rests REST t) = first (concat (map (rests K) (word_rests subj5 t)))"
      by (simp add: REST_def rs)
    also have "\<dots> = first_some (\<lambda>u. first (rests K u)) (word_rests subj5 t)"
      by (rule first_concat)
    also have "\<dots> = first_some
        (\<lambda>u. case skip_spaces1 u of None \<Rightarrow> None | Some v \<Rightarrow> strip_word modals v)
        (word_rests subj5 t)"
      by (simp only: fK)
    also have "\<dots> = (case first_some skip_spaces1 (word_rests subj5 t) of
        None \<Rightarrow> None | Some v \<Rightarrow> strip_word modals v)"
      by (rule first_some_bind) (rule uniq)
    also have "first_some skip_spaces1 (word_rests subj5 t) = strip_word subj5 t"
      by (simp add: strip_word_first_some)
    also have "strip_word subj5 t = strip_word subj4 t"
      unfolding subj5_def subj4_def
      by (rule strip_word_set_cong [OF subject_words_space_free subject_words_set])
    finally show ?thesis .
  qed
  have rejREST: "rests REST t = []"
    if "t \<noteq> []" and "isspace (hd t) \<or> hd t = CHR ''t''" for t
  proof -
    have "word_rests subj5 t = []"
      unfolding subj5_def using subject_words_heads that
      by (rule word_rests_hd [where P = "\<lambda>c. isspace c \<or> c = CHR ''t''"])
    then show ?thesis by (simp add: REST_def rs)
  qed
  have rWR: "concat (map (rests REST) (rests ws1 u))
      = (case skip_spaces1 u of None \<Rightarrow> [] | Some t \<Rightarrow> rests REST t)" for u
  proof -
    have "rests (Seq ws1 REST) u = (case skip_spaces1 u of None \<Rightarrow> [] | Some t \<Rightarrow> rests REST t)"
      by (rule rests_ws1_then) (rule rejREST, simp_all)
    then show ?thesis by simp
  qed
  define t0 where "t0 = (case strip_word [''the''] s of Some t \<Rightarrow> t | None \<Rightarrow> s)"
  have rR1: "rests R1 s = rests REST t0"
  proof (cases "startswith s ''the''")
    case True
    from startswith_hd [OF True] have "s \<noteq> []" and "hd s = CHR ''t''" by simp_all
    then have none: "rests REST s = []" by (intro rejREST) simp_all
    have "rests R1 s = concat (map (rests REST) (rests ws1 (drop (length ''the'') s))) @ rests REST s"
      using True by (simp add: R1_def X_def)
    also have "\<dots> = (case skip_spaces1 (drop (length ''the'') s) of None \<Rightarrow> [] | Some t \<Rightarrow> rests REST t)"
      by (simp only: rWR none append_Nil2)
    also have "\<dots> = rests REST t0"
      using True none by (cases "skip_spaces1 (drop (length ''the'') s)") (simp_all add: t0_def)
    finally show ?thesis .
  next
    case False
    then show ?thesis by (simp add: R1_def X_def t0_def)
  qed
  have t0_le: "length t0 \<le> length s"
  proof (cases "strip_word [''the''] s")
    case None
    then show ?thesis by (simp add: t0_def)
  next
    case (Some t)
    then have "length t < length s" by (rule strip_word_shorter)
    with Some show ?thesis by (simp add: t0_def)
  qed
  have fst: "first (rests R1 s)
      = (case strip_word subj4 t0 of None \<Rightarrow> None | Some v \<Rightarrow> strip_word modals v)"
    by (simp only: rR1 fREST)
  have short: "length v < length s" if "first (rests R1 s) = Some v" for v
  proof (cases "strip_word subj4 t0")
    case None
    with that fst show ?thesis by simp
  next
    case (Some u)
    with that fst have "strip_word modals u = Some v" by simp
    then have "length v < length u" by (rule strip_word_shorter)
    moreover from Some have "length u < length t0" by (rule strip_word_shorter)
    ultimately show ?thesis using t0_le by simp
  qed
  from re_sub_first [OF bf short]
  have "re_sub subject_modal_prefix [] s
      = (case (case strip_word subj4 t0 of None \<Rightarrow> None | Some v \<Rightarrow> strip_word modals v) of
           None \<Rightarrow> s | Some t \<Rightarrow> t)"
    unfolding sp fst by simp
  moreover have "strip_subject_modal s
      = (case strip_word subj4 t0 of None \<Rightarrow> s
         | Some u \<Rightarrow> (case strip_word modals u of None \<Rightarrow> s | Some v \<Rightarrow> v))"
    unfolding strip_subject_modal_def Let_def t0_def subj4_def modals_def by (rule refl)
  ultimately show ?thesis
    by (cases "strip_word subj4 t0") simp_all
qed

lemma endswith_period: "endswith x ''.'' \<longleftrightarrow> x \<noteq> [] \<and> last x = CHR ''.''"
  by (cases x rule: rev_cases) (simp_all add: endswith_def startswith_def)

text \<open>
  C9, as the claim states it, fails: the rules are not applied again after a later rule
  has exposed a new prefix. Here rule 2 removes \<open>enables\<close>, and the returned action still
  starts with a prefix of rule 1, which would remove \<open>users can\<close>.
\<close>

theorem repeated_stripping_counterexample:
  "extract_action_from_requirement ''enables users can export data'' = ''users can export data''
   \<and> re_sub subject_modal_prefix [] ''users can export data'' = ''export data''"
  by code_simp

text \<open>
  C9, amended. The action is the lowercased phrase after each of the three stripping
  rules has been applied once, in the order subject and modal verb, verb, \<open>to\<close>; the
  result is trimmed, one trailing period is dropped, and an empty result falls back to
  the lowercased phrase. The regular-expression code computes exactly the function
  \<^const>\<open>action_by_rules\<close>.
\<close>

theorem action_rules_once:
  "extract_action_from_requirement requirement = action_by_rules requirement"
  by (simp add: extract_action_from_requirement_def action_by_rules_def Let_def
        subject_modal_rule verb_rule to_rule endswith_period)

theorem action_rules_once_witness:
  "action_by_rules ''The system shall provide login.'' = ''login''"
proof -
  have "extract_action_from_requirement ''The system shall provide login.'' = ''login''"
    by code_simp
  with action_rules_once [of "''The system shall provide login.''"] show ?thesis by simp
qed

end
